theory Spec2Isabelle
  imports Complex_Main
begin

section \<open>Python strings\<close>

text \<open>
  A Python \<open>str\<close> is modelled as a \<open>string\<close>: a list of characters, each character a
  code point below 256. The tables of white space and of line boundaries below are
  Python's tables, restricted to that range.
\<close>

datatype py_error = IndexError | ValueError | HTTPException | ServiceError

text \<open>The characters for which \<open>str.isspace\<close> holds; \<open>strip\<close> and \<open>split\<close> use them.\<close>

definition is_space :: "char \<Rightarrow> bool" where
  "is_space c = (c \<in> set [CHR 0x09, CHR 0x0A, CHR 0x0B, CHR 0x0C, CHR 0x0D,
                            CHR 0x1C, CHR 0x1D, CHR 0x1E, CHR 0x1F, CHR 0x20,
                            CHR 0x85, CHR 0xA0])"

text \<open>The line boundaries of \<open>str.splitlines\<close> (a carriage return followed by a line
  feed counts as one boundary).\<close>

definition is_linebreak :: "char \<Rightarrow> bool" where
  "is_linebreak c = (c \<in> set [CHR 0x0A, CHR 0x0B, CHR 0x0C, CHR 0x0D,
                                CHR 0x1C, CHR 0x1D, CHR 0x1E, CHR 0x85])"

definition lstrip :: "string \<Rightarrow> string" where
  "lstrip s = dropWhile is_space s"

definition rstrip :: "string \<Rightarrow> string" where
  "rstrip s = rev (dropWhile is_space (rev s))"

definition strip :: "string \<Rightarrow> string" where
  "strip s = rstrip (lstrip s)"

text \<open>\<open>s.splitlines()\<close>: the first argument is the line read so far, reversed.\<close>

fun splitlines_aux :: "string \<Rightarrow> string \<Rightarrow> string list" where
  "splitlines_aux cur [] = (if cur = [] then [] else [rev cur])"
| "splitlines_aux cur [c] =
     (if is_linebreak c then [rev cur] else [rev (c # cur)])"
| "splitlines_aux cur (c # d # ds) =
     (if c = CHR 0x0D \<and> d = CHR 0x0A then rev cur # splitlines_aux [] ds
      else if is_linebreak c then rev cur # splitlines_aux [] (d # ds)
      else splitlines_aux (c # cur) (d # ds))"

definition splitlines :: "string \<Rightarrow> string list" where
  "splitlines s = splitlines_aux [] s"

text \<open>\<open>s.split()\<close> with no argument: the maximal runs of characters that are not white
  space. The first argument is the word read so far, reversed.\<close>

fun split_aux :: "string \<Rightarrow> string \<Rightarrow> string list" where
  "split_aux w [] = (if w = [] then [] else [rev w])"
| "split_aux w (c # cs) =
     (if is_space c then (if w = [] then split_aux [] cs else rev w # split_aux [] cs)
      else split_aux (c # w) cs)"

definition split_words :: "string \<Rightarrow> string list" where
  "split_words s = split_aux [] s"

text \<open>\<open>sep.join(ws)\<close>.\<close>

fun join :: "string \<Rightarrow> string list \<Rightarrow> string" where
  "join sep [] = []"
| "join sep [w] = w"
| "join sep (w # v # vs) = w @ sep @ join sep (v # vs)"

text \<open>\<open>s.startswith(p)\<close>, \<open>s.endswith(p)\<close> and \<open>sub in s\<close>.\<close>

fun startswith :: "string \<Rightarrow> string \<Rightarrow> bool" where
  "startswith s [] = True"
| "startswith [] (p # ps) = False"
| "startswith (c # cs) (p # ps) = (c = p \<and> startswith cs ps)"

definition endswith :: "string \<Rightarrow> string \<Rightarrow> bool" where
  "endswith s p = startswith (rev s) (rev p)"

fun str_in :: "string \<Rightarrow> string \<Rightarrow> bool" where
  "str_in sub [] = (sub = [])"
| "str_in sub (c # cs) = (startswith (c # cs) sub \<or> str_in sub cs)"

text \<open>\<open>xs[i]\<close> for an index that is not negative: out of range raises \<open>IndexError\<close>.\<close>

definition index :: "'a list \<Rightarrow> nat \<Rightarrow> py_error + 'a" where
  "index xs i = (if i < length xs then Inr (xs ! i) else Inl IndexError)"

section \<open>The two-line protocol parser\<close>

text \<open>The list \<open>lines\<close> of \<open>parse_llm_two_line_response\<close>: the lines of the stripped text,
  each stripped, those that are empty after stripping left out.\<close>

definition nonempty_lines :: "string \<Rightarrow> string list" where
  "nonempty_lines text = [strip l. l \<leftarrow> splitlines (strip text), strip l \<noteq> []]"

text \<open>The non-empty trimmed lines of a text as the specification words them: the lines
  of the text itself, each stripped, the empty ones left out. The two lists are shown to
  be equal below.\<close>

definition trimmed_lines :: "string \<Rightarrow> string list" where
  "trimmed_lines text = [strip l. l \<leftarrow> splitlines text, strip l \<noteq> []]"

text \<open>The loop over \<open>reversed(lines[1:])\<close>, which stops at the first line that ends with a
  question mark or contains one.\<close>

definition find_follow :: "string list \<Rightarrow> string option" where
  "find_follow lines = find (\<lambda>l. endswith l ''?'' \<or> str_in ''?'' l) (rev (tl lines))"

definition parse_llm_two_line_response :: "string \<Rightarrow> py_error + (string \<times> string)" where
  "parse_llm_two_line_response text =
     (if text = [] then Inr ('''', '''')
      else let lines = nonempty_lines text in
        if lines = [] then Inr ('''', '''')
        else if length lines = 1 then
          (case index lines 0 of Inl e \<Rightarrow> Inl e | Inr l0 \<Rightarrow> Inr ('''', l0))
        else
          (case index lines 0 of Inl e \<Rightarrow> Inl e
           | Inr eval_line \<Rightarrow>
               (case find_follow lines of
                  Some follow \<Rightarrow> Inr (eval_line, follow)
                | None \<Rightarrow>
                    (if length lines > 1
                     then (case index lines 1 of Inl e \<Rightarrow> Inl e
                           | Inr follow \<Rightarrow> Inr (eval_line, follow))
                     else Inr (eval_line, '''')))))"

section \<open>The chunker\<close>

text \<open>\<open>xs[a:b]\<close> with Python's treatment of negative and out-of-range bounds.\<close>

definition py_slice :: "'a list \<Rightarrow> int \<Rightarrow> int \<Rightarrow> 'a list" where
  "py_slice xs a b =
     (let n = int (length xs);
          lo = (if a < 0 then max (a + n) 0 else min a n);
          hi = (if b < 0 then max (b + n) 0 else min b n)
      in if lo < hi then take (nat (hi - lo)) (drop (nat lo) xs) else [])"

text \<open>The \<open>while i < len(words)\<close> loop of \<open>_chunk_text\<close>. Nothing in the source bounds the
  number of iterations, so the loop is a partial function: \<open>None\<close> means that it does
  not return.\<close>

partial_function (option) chunk_loop ::
  "string list \<Rightarrow> int \<Rightarrow> int \<Rightarrow> int \<Rightarrow> string list \<Rightarrow> string list option" where
  "chunk_loop words chunk_size_words overlap_words i chunks =
     (if i < int (length words)
      then chunk_loop words chunk_size_words overlap_words
             (i + (chunk_size_words - overlap_words))
             (chunks @ [join '' '' (py_slice words i (i + chunk_size_words))])
      else Some chunks)"

declare chunk_loop.simps [code]

text \<open>\<open>_chunk_text\<close> (the source has no \<open>raise\<close> on any path; the result \<open>None\<close> is the
  loop that does not return).\<close>

definition chunk_text :: "string \<Rightarrow> int \<Rightarrow> int \<Rightarrow> string list option" where
  "chunk_text text chunk_size_words overlap_words =
     (if text = [] then Some []
      else let words = split_words (strip text) in
        if int (length words) \<le> chunk_size_words then Some [join '' '' words]
        else (case chunk_loop words chunk_size_words overlap_words 0 [] of
                None \<Rightarrow> None
              | Some chunks \<Rightarrow> Some [strip c. c \<leftarrow> chunks, length (split_words c) > 10]))"

section \<open>The question budget\<close>

text \<open>\<open>s.split(sep)\<close> for a separator of one character: every occurrence splits, and
  empty fields are kept.\<close>

fun split_on_aux :: "char \<Rightarrow> string \<Rightarrow> string \<Rightarrow> string list" where
  "split_on_aux sep cur [] = [rev cur]"
| "split_on_aux sep cur (c # cs) =
     (if c = sep then rev cur # split_on_aux sep [] cs else split_on_aux sep (c # cur) cs)"

definition split_on :: "char \<Rightarrow> string \<Rightarrow> string list" where
  "split_on sep s = split_on_aux sep [] s"

text \<open>\<open>int(s)\<close> on a string: white space around the number is dropped, one sign is
  allowed, and the digits may be grouped by single underscores. Anything else raises
  \<open>ValueError\<close>. (The interpreter's configurable limit on the number of digits is not
  part of the model.)\<close>

definition is_digit :: "char \<Rightarrow> bool" where
  "is_digit c = (c \<in> set ''0123456789'')"

definition digit_val :: "char \<Rightarrow> nat" where
  "digit_val c = of_char c - 48"

fun parse_digits :: "nat \<Rightarrow> bool \<Rightarrow> string \<Rightarrow> nat option" where
  "parse_digits acc prev [] = (if prev then Some acc else None)"
| "parse_digits acc prev (c # cs) =
     (if is_digit c then parse_digits (10 * acc + digit_val c) True cs
      else if c = CHR ''_'' \<and> prev then parse_digits acc False cs
      else None)"

definition py_int :: "string \<Rightarrow> py_error + int" where
  "py_int s =
     (case strip s of
        [] \<Rightarrow> Inl ValueError
      | c # cs \<Rightarrow>
          if c = CHR ''-'' then
            (case parse_digits 0 False cs of None \<Rightarrow> Inl ValueError | Some n \<Rightarrow> Inr (- int n))
          else if c = CHR ''+'' then
            (case parse_digits 0 False cs of None \<Rightarrow> Inl ValueError | Some n \<Rightarrow> Inr (int n))
          else
            (case parse_digits 0 False (c # cs) of
               None \<Rightarrow> Inl ValueError | Some n \<Rightarrow> Inr (int n)))"

text \<open>\<open>compute_max_questions\<close>: whatever is raised inside the \<open>try\<close> is swallowed and the
  default is returned.\<close>

definition compute_max_questions :: "string \<Rightarrow> int" where
  "compute_max_questions mode =
     (if mode = [] then 12
      else if str_in ''Quick'' mode then 6
      else if str_in ''Detailed'' mode then 12
      else if str_in ''Long'' mode then 20
      else let parts = split_on CHR ''|'' mode in
        if length parts > 1 then
          (case index parts 1 of
             Inl e \<Rightarrow> 12
           | Inr p \<Rightarrow> (case py_int p of Inl e \<Rightarrow> 12 | Inr n \<Rightarrow> n))
        else 12)"



section \<open>The hesitation detector and the confidence scorer\<close>

text \<open>
  Three things of the environment are parameters of the model. The search of the
  compiled regular expression \<open>_hes_re\<close> in a text is the function \<open>hes_search\<close>. Each
  call of the embeddings endpoint has an outcome, the vectors or an exception, that is
  passed in. Python's floats are modelled as real numbers, and a \<open>numpy\<close> vector as a
  list of them.
\<close>

definition detect_hesitation :: "(string \<Rightarrow> bool) \<Rightarrow> string \<Rightarrow> bool" where
  "detect_hesitation hes_search text =
     (if text = [] \<or> length (strip text) = 0 then True else hes_search text)"

text \<open>\<open>_embed_texts\<close>: \<open>api\<close> is the outcome of \<open>client.embeddings.create\<close> for this call.\<close>

definition embed_texts :: "(py_error + real list list) \<Rightarrow> string list \<Rightarrow> py_error + real list list" where
  "embed_texts api texts = (if texts = [] then Inr [] else api)"

text \<open>\<open>np.array(emb, dtype="float32")\<close> on a list of vectors raises unless they all have
  one length; \<open>np.mean(arr, axis=0)\<close> is the vector of the column means.\<close>

definition np_array_2d :: "real list list \<Rightarrow> py_error + real list list" where
  "np_array_2d rows =
     (case rows of
        [] \<Rightarrow> Inr []
      | r0 # _ \<Rightarrow> if \<forall>r\<in>set rows. length r = length r0 then Inr rows else Inl ValueError)"

definition np_mean_axis0 :: "real list list \<Rightarrow> real list" where
  "np_mean_axis0 rows =
     (case rows of
        [] \<Rightarrow> []
      | r0 # _ \<Rightarrow> map (\<lambda>j. (\<Sum>r\<leftarrow>rows. r ! j) / real (length rows)) [0..<length r0])"

definition mean_embedding_of_chunks ::
  "(py_error + real list list) \<Rightarrow> string list \<Rightarrow> py_error + real list option" where
  "mean_embedding_of_chunks api chunks =
     (if chunks = [] then Inr None
      else case embed_texts api chunks of
             Inl e \<Rightarrow> Inl e
           | Inr emb \<Rightarrow>
               if emb = [] then Inr None
               else (case np_array_2d emb of
                       Inl e \<Rightarrow> Inl e
                     | Inr arr \<Rightarrow> Inr (Some (np_mean_axis0 arr))))"

text \<open>\<open>np.linalg.norm\<close> and \<open>np.dot\<close> on vectors; \<open>np.dot\<close> raises on vectors of different
  lengths.\<close>

definition linalg_norm :: "real list \<Rightarrow> real" where
  "linalg_norm v = sqrt (\<Sum>x\<leftarrow>v. x * x)"

definition np_dot :: "real list \<Rightarrow> real list \<Rightarrow> py_error + real" where
  "np_dot a b =
     (if length a = length b then Inr (\<Sum>(x, y)\<leftarrow>zip a b. x * y) else Inl ValueError)"

definition cosine_sim :: "real list option \<Rightarrow> real list option \<Rightarrow> py_error + real" where
  "cosine_sim a b =
     (case a of
        None \<Rightarrow> Inr 0
      | Some va \<Rightarrow>
          (case b of
             None \<Rightarrow> Inr 0
           | Some vb \<Rightarrow>
               let denom = linalg_norm va * linalg_norm vb in
               if denom = 0 then Inr 0
               else (case np_dot va vb of Inl e \<Rightarrow> Inl e | Inr d \<Rightarrow> Inr (d / denom))))"

text \<open>The first part of \<open>compute_confidence_score\<close>, down to the local variable \<open>sim\<close>.
  An exception of the answer's embedding is caught (\<open>user_emb = None\<close>); the embedding of
  the chunks is outside the \<open>try\<close>.\<close>

definition answer_similarity ::
  "(py_error + real list list) \<Rightarrow> (py_error + real list list) \<Rightarrow> string \<Rightarrow> string list
     \<Rightarrow> py_error + real" where
  "answer_similarity user_api jd_api user_text jd_chunks =
     (let user_emb =
            (case embed_texts user_api [user_text] of
               Inl e \<Rightarrow> None
             | Inr vs \<Rightarrow> (case index vs 0 of Inl e \<Rightarrow> None | Inr v \<Rightarrow> Some v))
      in case (if jd_chunks \<noteq> [] then mean_embedding_of_chunks jd_api jd_chunks else Inr None) of
           Inl e \<Rightarrow> Inl e
         | Inr mean_jd_emb \<Rightarrow>
             if user_emb \<noteq> None then cosine_sim user_emb mean_jd_emb else Inr 0)"

definition compute_confidence_score ::
  "(py_error + real list list) \<Rightarrow> (py_error + real list list) \<Rightarrow> (string \<Rightarrow> bool) \<Rightarrow>
     string \<Rightarrow> string \<Rightarrow> string list \<Rightarrow> py_error + real" where
  "compute_confidence_score user_api jd_api hes_search user_text session_id jd_chunks =
     (if user_text = [] then Inr 0
      else case answer_similarity user_api jd_api user_text jd_chunks of
             Inl e \<Rightarrow> Inl e
           | Inr sim \<Rightarrow>
               let sim_norm = max 0 (min 1 ((sim + 1) / 2));
                   conf = sim_norm;
                   conf = (if detect_hesitation hes_search user_text then conf * 0.6 else conf);
                   word_count = length (split_words user_text);
                   conf = (if word_count < 8 then conf * 0.7 else conf)
               in Inr (max 0 (min 1 conf)))"

section \<open>The session state machine\<close>

text \<open>
  A session is the dictionary that \<open>start_session\<close> builds. Two of its entries are read
  with \<open>dict.get\<close> and can hold \<open>None\<close>, so they are modelled with the three cases of a
  dictionary entry: the key is missing, the value is \<open>None\<close>, or there is a value.
\<close>

datatype 'a entry = Missing | PyNone | Val 'a

text \<open>\<open>d.get(key, default)\<close>, with \<open>None\<close> for the value \<open>None\<close>, and the truth value of
  \<open>d.get(key)\<close> for a string entry.\<close>

definition dict_get :: "'a entry \<Rightarrow> 'a \<Rightarrow> 'a option" where
  "dict_get e dflt = (case e of Missing \<Rightarrow> Some dflt | PyNone \<Rightarrow> None | Val v \<Rightarrow> Some v)"

definition truthy :: "string entry \<Rightarrow> bool" where
  "truthy e = (case e of Missing \<Rightarrow> False | PyNone \<Rightarrow> False | Val v \<Rightarrow> v \<noteq> [])"

datatype session_status = in_progress | finished

record turn =
  speaker :: string
  turn_text :: string

record session =
  session_id :: string
  role :: string
  level :: string
  focus :: string
  mode :: string
  jd_text :: string
  history :: "turn list"
  questions_asked :: int
  status :: session_status
  feedback :: "string entry"
  current_question :: "string entry"

text \<open>
  The state of the process is the table \<open>SESSIONS\<close>, together with a log of the calls made
  to the transcription service, to the retrieval index (\<open>query_rag\<close>) and to the
  completion service (\<open>call_openai_llm\<close>). A handler takes the state and returns its
  response, or the exception it raises, with the new state. The session object is
  mutated in place, so what a handler has written before it raises stays in the table.
\<close>

datatype call = Transcription | Retrieval | Completion

record world =
  SESSIONS :: "string \<rightharpoonup> session"
  calls :: "call list"

definition initial_world :: world where
  "initial_world = \<lparr>SESSIONS = Map.empty, calls = []\<rparr>"

text \<open>\<open>generate_feedback_for_session\<close>: the argument \<open>fb_llm\<close> is the outcome of its call of
  \<open>call_openai_llm\<close>; the session only feeds the prompt.\<close>

definition generate_feedback_for_session :: "session \<Rightarrow> (py_error + string) \<Rightarrow> string" where
  "generate_feedback_for_session s fb_llm =
     (case fb_llm of
        Inl e \<Rightarrow> ''Feedback generation failed. Try again later.''
      | Inr fb \<Rightarrow> fb)"

definition FALLBACKS :: "string list" where
  "FALLBACKS =
     [''Can you provide a concrete example related to this job requirement?'',
      ''Can you briefly quantify the impact of your action?'',
      ''Could you explain one technical decision in more detail?'']"

text \<open>\<open>random.choice(FALLBACKS)\<close>, the random draw being the argument.\<close>

definition choose_fallback_followup :: "nat \<Rightarrow> string" where
  "choose_fallback_followup draw = FALLBACKS ! (draw mod length FALLBACKS)"

text \<open>\<open>s.replace(old, new)\<close> for an \<open>old\<close> that is not empty: the occurrences are replaced
  from left to right, without overlap.\<close>

function str_replace :: "string \<Rightarrow> string \<Rightarrow> string \<Rightarrow> string" where
  "str_replace old new [] = []"
| "str_replace old new (c # cs) =
     (if old \<noteq> [] \<and> startswith (c # cs) old
      then new @ str_replace old new (drop (length old) (c # cs))
      else c # str_replace old new cs)"
  by pat_completeness auto
termination
  by (relation "measure (\<lambda>(old, new, s). length s)") auto

subsection \<open>Starting a session\<close>

text \<open>The environment of one call of \<open>start_session\<close>: the identifier drawn by
  \<open>uuid.uuid4()\<close>, the outcome of \<open>query_rag\<close> and the outcome of \<open>call_openai_llm\<close>.
  Building the index is inside a \<open>try\<close> and changes no session.\<close>

record start_env =
  new_session_id :: string
  start_rag :: "py_error + string list"
  start_llm :: "py_error + string"

record start_reply =
  sr_session_id :: string
  sr_first_question :: string
  sr_status :: string
  sr_current_q_count :: int

definition start_session ::
  "world \<Rightarrow> start_env \<Rightarrow> string \<Rightarrow> string \<Rightarrow> string \<Rightarrow> string \<Rightarrow> string
     \<Rightarrow> (py_error + start_reply) \<times> world" where
  "start_session w env a_role a_level a_focus a_mode a_jd_text =
     (let sid = new_session_id env;
          s0 = \<lparr>session_id = sid, role = a_role, level = a_level, focus = a_focus,
                mode = a_mode, jd_text = a_jd_text, history = [], questions_asked = 0,
                status = in_progress, feedback = PyNone, current_question = Missing\<rparr>;
          w1 = w\<lparr>SESSIONS := (SESSIONS w)(sid \<mapsto> s0), calls := calls w @ [Retrieval]\<rparr>
      in (case start_rag env of
            Inl e \<Rightarrow> (Inl e, w1)
          | Inr jd_chunks \<Rightarrow>
              (let w2 = w1\<lparr>calls := calls w1 @ [Completion]\<rparr>
               in (case start_llm env of
                     Inl e \<Rightarrow> (Inl HTTPException, w2)
                   | Inr first_question \<Rightarrow>
                       (let s1 = s0\<lparr>history := history s0 @
                                      [\<lparr>speaker = ''Interviewer'', turn_text = first_question\<rparr>],
                                    questions_asked := 1,
                                    current_question := Val first_question\<rparr>
                        in (Inr \<lparr>sr_session_id = sid, sr_first_question = first_question,
                                 sr_status = ''in_progress'',
                                 sr_current_q_count = questions_asked s1\<rparr>,
                            w2\<lparr>SESSIONS := (SESSIONS w2)(sid \<mapsto> s1)\<rparr>))))))"

subsection \<open>Submitting an answer\<close>

text \<open>The environment of one call of \<open>submit_response\<close>: the text that \<open>transcribe\<close> returns,
  the outcome of \<open>query_rag\<close>, the outcome of the completion call of the turn, the random
  draw of the fallback question, the outcomes of the two embedding calls of the confidence
  scorer, the search of the hesitation patterns, and the outcome of the completion call
  of the feedback.\<close>

record submit_env =
  transcription :: "py_error + string"
  rag :: "py_error + string list"
  llm :: "py_error + string"
  fallback_draw :: nat
  user_emb_api :: "py_error + real list list"
  jd_emb_api :: "py_error + real list list"
  hes_search :: "string \<Rightarrow> bool"
  feedback_llm :: "py_error + string"

text \<open>The response sent for a session that is already finished, and the response of a
  turn. In a turn's response \<open>r_feedback\<close> is \<open>None\<close> when the key is not in the payload.\<close>

record finished_reply =
  fr_feedback_ready :: bool
  fr_feedback :: "string option"

record turn_reply =
  r_user_text :: string
  r_evaluation :: string
  r_followup_question :: "string option"
  r_new_question :: "string option"
  r_full_response :: string
  r_current_q_count :: int
  r_feedback_ready :: bool
  r_feedback :: "string option"
  r_confidence :: real
  r_offtopic :: bool
  r_hesitation_flag :: bool

datatype submit_reply = Finished_Reply finished_reply | Turn_Reply turn_reply

text \<open>Steps 5 to 8 of \<open>submit_response\<close>: the completion call with its fallback, the
  parse of the two lines, the confidence score and the detection of the off-topic marker.
  The result is the tuple of \<open>full_response\<close>, \<open>evaluation\<close>, \<open>followup_question\<close>,
  \<open>new_question\<close>, \<open>confidence_score\<close> and \<open>offtopic\<close>.\<close>

record turn_result =
  t_full_response :: string
  t_evaluation :: string
  t_followup_question :: "string option"
  t_new_question :: "string option"
  t_confidence :: real
  t_offtopic :: bool

definition evaluate_turn ::
  "submit_env \<Rightarrow> string \<Rightarrow> string \<Rightarrow> string list \<Rightarrow> py_error + turn_result" where
  "evaluate_turn env user_text sid jd_chunks =
     (let (full_response, evaluation, followup_question) =
            (case llm env of
               Inr r \<Rightarrow> (r, '''', None)
             | Inl e \<Rightarrow>
                 (let fu = choose_fallback_followup (fallback_draw env);
                      ev = ''Short evaluation not available due to model error.''
                  in (ev @ [CHR 0x0A] @ fu, ev, Some fu)))
      in (case (if full_response \<noteq> []
                then (case parse_llm_two_line_response full_response of
                        Inl e \<Rightarrow> Inl e
                      | Inr (eval_line, follow_line) \<Rightarrow>
                          Inr (eval_line, Some follow_line, Some follow_line))
                else Inr (evaluation, followup_question, None)) of
            Inl e \<Rightarrow> Inl e
          | Inr (evaluation, followup_question, new_question) \<Rightarrow>
              (let confidence_score =
                     (case compute_confidence_score (user_emb_api env) (jd_emb_api env)
                             (hes_search env) user_text sid jd_chunks of
                        Inl e \<Rightarrow> 0
                      | Inr c \<Rightarrow> c);
                   offtopic = startswith (strip evaluation) ''[OFFTOPIC]'';
                   evaluation = (if offtopic
                                 then strip (str_replace ''[OFFTOPIC]'' '''' evaluation)
                                 else evaluation)
               in Inr \<lparr>t_full_response = full_response, t_evaluation = evaluation,
                       t_followup_question = followup_question, t_new_question = new_question,
                       t_confidence = confidence_score, t_offtopic = offtopic\<rparr>)))"

text \<open>Step 9 of \<open>submit_response\<close>: the interviewer's turn is appended and the current
  question replaced on both branches; the counter moves only when the turn is not
  off-topic.\<close>

definition record_turn :: "session \<Rightarrow> turn_result \<Rightarrow> session" where
  "record_turn s1 t =
     s1\<lparr>history := history s1 @ [\<lparr>speaker = ''Interviewer'', turn_text = t_full_response t\<rparr>],
        questions_asked := (if t_offtopic t then questions_asked s1 else questions_asked s1 + 1),
        current_question := (case t_new_question t of None \<Rightarrow> PyNone | Some q \<Rightarrow> Val q)\<rparr>"

text \<open>Steps 10 to 13: the budget is compared with the counter, whatever the turn was.\<close>

definition conclude_turn ::
  "world \<Rightarrow> string \<Rightarrow> session \<Rightarrow> submit_env \<Rightarrow> string \<Rightarrow> bool \<Rightarrow> turn_result
     \<Rightarrow> (py_error + submit_reply) \<times> world" where
  "conclude_turn w3 sid s2 env user_text hesitation_flag t =
     (let max_q = compute_max_questions (mode s2) in
      if questions_asked s2 \<ge> max_q then
        (let s3 = s2\<lparr>status := finished\<rparr>;
             feedback_text = generate_feedback_for_session s3 (feedback_llm env);
             s4 = s3\<lparr>feedback := Val feedback_text\<rparr>
         in (Inr (Turn_Reply
                   \<lparr>r_user_text = user_text,
                    r_evaluation = t_evaluation t,
                    r_followup_question = t_followup_question t,
                    r_new_question = None,
                    r_full_response = t_full_response t,
                    r_current_q_count = questions_asked s4,
                    r_feedback_ready = True,
                    r_feedback = Some feedback_text,
                    r_confidence = t_confidence t,
                    r_offtopic = t_offtopic t,
                    r_hesitation_flag = hesitation_flag\<rparr>),
             w3\<lparr>SESSIONS := (SESSIONS w3)(sid \<mapsto> s4), calls := calls w3 @ [Completion]\<rparr>))
      else
        (Inr (Turn_Reply
               \<lparr>r_user_text = user_text,
                r_evaluation = t_evaluation t,
                r_followup_question = t_followup_question t,
                r_new_question = t_new_question t,
                r_full_response = t_full_response t,
                r_current_q_count = questions_asked s2,
                r_feedback_ready = False,
                r_feedback = None,
                r_confidence = t_confidence t,
                r_offtopic = t_offtopic t,
                r_hesitation_flag = hesitation_flag\<rparr>),
         w3\<lparr>SESSIONS := (SESSIONS w3)(sid \<mapsto> s2)\<rparr>))"

text \<open>The response when nothing was transcribed (the dash of the source's message is
  written as a hyphen).\<close>

definition repeat_reply :: "session \<Rightarrow> submit_reply" where
  "repeat_reply s =
     Turn_Reply
       \<lparr>r_user_text = '''', r_evaluation = '''',
        r_followup_question =
          Some ''I didn't catch that - could you please repeat your answer?'',
        r_new_question = dict_get (current_question s) '''',
        r_full_response = '''',
        r_current_q_count = questions_asked s,
        r_feedback_ready = False, r_feedback = None,
        r_confidence = 0, r_offtopic = False,
        r_hesitation_flag = True\<rparr>"

text \<open>Steps 2 to 13, for a session \<open>s\<close> that is in progress and a transcribed text that is
  not empty.\<close>

definition answer_turn ::
  "world \<Rightarrow> string \<Rightarrow> session \<Rightarrow> submit_env \<Rightarrow> string \<Rightarrow> (py_error + submit_reply) \<times> world" where
  "answer_turn w1 sid s env user_text =
     (let s1 = s\<lparr>history := history s @ [\<lparr>speaker = ''User'', turn_text = user_text\<rparr>]\<rparr>;
          w2 = w1\<lparr>SESSIONS := (SESSIONS w1)(sid \<mapsto> s1), calls := calls w1 @ [Retrieval]\<rparr>
      in (case rag env of
            Inl e \<Rightarrow> (Inl e, w2)
          | Inr jd_chunks \<Rightarrow>
              (let hesitation_flag = detect_hesitation (hes_search env) user_text;
                   w3 = w2\<lparr>calls := calls w2 @ [Completion]\<rparr>
               in (case evaluate_turn env user_text sid jd_chunks of
                     Inl e \<Rightarrow> (Inl e, w3)
                   | Inr t \<Rightarrow>
                       conclude_turn w3 sid (record_turn s1 t) env user_text hesitation_flag t))))"

definition submit_response ::
  "world \<Rightarrow> string \<Rightarrow> submit_env \<Rightarrow> (py_error + submit_reply) \<times> world" where
  "submit_response w sid env =
     (case SESSIONS w sid of
        None \<Rightarrow> (Inl HTTPException, w)
      | Some s \<Rightarrow>
          if status s = finished then
            (Inr (Finished_Reply
                   \<lparr>fr_feedback_ready = True,
                    fr_feedback = dict_get (feedback s) ''Feedback is being generated.''\<rparr>), w)
          else
            (let w1 = w\<lparr>calls := calls w @ [Transcription]\<rparr>
             in (case transcription env of
                   Inl e \<Rightarrow> (Inl e, w1)
                 | Inr transcribed \<Rightarrow>
                     (let user_text = strip transcribed in
                      if user_text = [] then (Inr (repeat_reply s), w1)
                      else answer_turn w1 sid s env user_text))))"

subsection \<open>Ending an interview and reading the feedback\<close>

text \<open>In the response of \<open>end_interview\<close>, \<open>er_feedback\<close> is \<open>None\<close> when the key is not in
  the payload.\<close>

record end_reply =
  er_status :: string
  er_message :: string
  er_session_id :: string
  er_feedback :: "string option"

definition end_interview ::
  "world \<Rightarrow> string \<Rightarrow> (py_error + string) \<Rightarrow> (py_error + end_reply) \<times> world" where
  "end_interview w sid fb_llm =
     (case SESSIONS w sid of
        None \<Rightarrow> (Inl HTTPException, w)
      | Some s \<Rightarrow>
          if status s = finished \<and> truthy (feedback s) then
            (Inr \<lparr>er_status = ''finished'', er_message = ''Feedback already generated.'',
                  er_session_id = sid, er_feedback = None\<rparr>, w)
          else
            let s1 = s\<lparr>status := finished\<rparr>;
                feedback_text = generate_feedback_for_session s1 fb_llm;
                s2 = s1\<lparr>feedback := Val feedback_text\<rparr>
            in (Inr \<lparr>er_status = ''finished'', er_message = ''Feedback generated.'',
                     er_session_id = sid, er_feedback = Some feedback_text\<rparr>,
                w\<lparr>SESSIONS := (SESSIONS w)(sid \<mapsto> s2), calls := calls w @ [Completion]\<rparr>))"

definition get_feedback :: "world \<Rightarrow> string \<Rightarrow> py_error + string" where
  "get_feedback w sid =
     (case SESSIONS w sid of
        None \<Rightarrow> Inl HTTPException
      | Some s \<Rightarrow>
          (case feedback s of
             Val fb \<Rightarrow> if fb \<noteq> [] then Inr fb else Inr ''Generating... Please check back.''
           | _ \<Rightarrow> Inr ''Generating... Please check back.''))"

subsection \<open>Sequences of operations\<close>

text \<open>One operation on the state. The identifier that \<open>uuid.uuid4()\<close> draws for a new
  session is taken to be one that is not in the table.\<close>

inductive step :: "world \<Rightarrow> world \<Rightarrow> bool" where
  start: "new_session_id env \<notin> dom (SESSIONS w) \<Longrightarrow>
            step w (snd (start_session w env a_role a_level a_focus a_mode a_jd_text))"
| submit: "step w (snd (submit_response w sid env))"
| ending: "step w (snd (end_interview w sid fb_llm))"

definition reachable :: "world \<Rightarrow> bool" where
  "reachable w = step\<^sup>*\<^sup>* initial_world w"

text \<open>The invariant of the sessions of a reachable state, used in the proofs: a finished
  session has a feedback text, and a session in progress whose budget is at least 2 has
  asked fewer questions than its budget.\<close>

definition session_ok :: "session \<Rightarrow> bool" where
  "session_ok s =
     ((status s = finished \<longrightarrow> (case feedback s of Val fb \<Rightarrow> True | _ \<Rightarrow> False)) \<and>
      (status s = in_progress \<and> 2 \<le> compute_max_questions (mode s)
         \<longrightarrow> questions_asked s < compute_max_questions (mode s)))"

subsection \<open>An example run\<close>

text \<open>A session started in a given mode, an answer that the model marks as off-topic, and
  the state after an explicit end of the interview.\<close>

definition demo_start_env :: start_env where
  "demo_start_env =
     \<lparr>new_session_id = ''s1'', start_rag = Inr [], start_llm = Inr ''How do you design a cache?''\<rparr>"

definition demo_world :: "string \<Rightarrow> world" where
  "demo_world m =
     snd (start_session initial_world demo_start_env ''Engineer'' ''Mid-level'' ''backend'' m '''')"

definition demo_offtopic_env :: submit_env where
  "demo_offtopic_env =
     \<lparr>transcription = Inr ''I like pizza'', rag = Inr [],
      llm = Inr ''[OFFTOPIC] Irrelevant.\<newline>Could you answer the question?'',
      fallback_draw = 0, user_emb_api = Inl ServiceError, jd_emb_api = Inl ServiceError,
      hes_search = (\<lambda>_. False), feedback_llm = Inr ''Weak.''\<rparr>"

definition demo_finished_world :: world where
  "demo_finished_world = snd (end_interview (demo_world ''Quick|10'') ''s1'' (Inr ''Weak.''))"

section \<open>Properties of the two-line protocol parser\<close>

lemma str_in_single: "str_in [c] s \<longleftrightarrow> c \<in> set s"
  by (induction s) auto

lemma endswith_single: "endswith s [c] \<Longrightarrow> c \<in> set s"
  by (cases s rule: rev_cases) (auto simp: endswith_def)

lemma is_question: "(endswith l ''?'' \<or> str_in ''?'' l) \<longleftrightarrow> CHR ''?'' \<in> set l"
  using endswith_single str_in_single by blast

lemma find_rev_None: "find P (rev xs) = None \<longleftrightarrow> (\<forall>x\<in>set xs. \<not> P x)"
  by (auto simp: find_None_iff)

lemma find_rev_Some:
  "find P (rev xs) = Some x \<Longrightarrow>
     \<exists>k<length xs. xs ! k = x \<and> P x \<and> (\<forall>j. k < j \<and> j < length xs \<longrightarrow> \<not> P (xs ! j))"
proof (induction xs rule: rev_induct)
  case Nil
  then show ?case by simp
next
  case (snoc y ys)
  show ?case
  proof (cases "P y")
    case True
    with snoc.prems have "x = y" by simp
    with True show ?thesis
      by (intro exI[of _ "length ys"]) auto
  next
    case False
    with snoc.prems have "find P (rev ys) = Some x" by simp
    from snoc.IH[OF this] obtain k where k: "k < length ys" "ys ! k = x" "P x"
      "\<forall>j. k < j \<and> j < length ys \<longrightarrow> \<not> P (ys ! j)" by blast
    show ?thesis
    proof (intro exI[of _ k] conjI allI impI)
      fix j assume j: "k < j \<and> j < length (ys @ [y])"
      show "\<not> P ((ys @ [y]) ! j)"
      proof (cases "j < length ys")
        case True
        with k j show ?thesis by (simp add: nth_append)
      next
        case False
        with j have "j = length ys" by simp
        with \<open>\<not> P y\<close> show ?thesis by simp
      qed
    qed (use k in \<open>auto simp: nth_append\<close>)
  qed
qed

lemma find_follow_Some:
  assumes "find_follow ls = Some fu" and "2 \<le> length ls"
  shows "\<exists>k. 1 \<le> k \<and> k < length ls \<and> fu = ls ! k \<and> CHR ''?'' \<in> set (ls ! k) \<and>
           (\<forall>j. k < j \<and> j < length ls \<longrightarrow> CHR ''?'' \<notin> set (ls ! j))"
proof -
  obtain e rest where ls: "ls = e # rest" using assms(2) by (cases ls) auto
  from assms(1) have "find (\<lambda>l. CHR ''?'' \<in> set l) (rev rest) = Some fu"
    by (simp add: find_follow_def ls is_question)
  from find_rev_Some[OF this] obtain k where k: "k < length rest" "rest ! k = fu"
    "CHR ''?'' \<in> set fu" "\<forall>j. k < j \<and> j < length rest \<longrightarrow> CHR ''?'' \<notin> set (rest ! j)"
    by blast
  have "\<forall>j. Suc k < j \<and> j < length ls \<longrightarrow> CHR ''?'' \<notin> set (ls ! j)"
  proof (intro allI impI)
    fix j assume j: "Suc k < j \<and> j < length ls"
    then obtain i where i: "j = Suc i" by (cases j) auto
    with j k(4) show "CHR ''?'' \<notin> set (ls ! j)" by (simp add: ls)
  qed
  with k show ?thesis
    by (intro exI[of _ "Suc k"]) (simp add: ls)
qed

lemma find_follow_None:
  "find_follow ls = None \<longleftrightarrow> (\<forall>j. 1 \<le> j \<and> j < length ls \<longrightarrow> CHR ''?'' \<notin> set (ls ! j))"
proof (cases ls)
  case Nil
  then show ?thesis by (simp add: find_follow_def)
next
  case (Cons e rest)
  have "(\<forall>x\<in>set rest. CHR ''?'' \<notin> set x) \<longleftrightarrow>
        (\<forall>j. 1 \<le> j \<and> j < Suc (length rest) \<longrightarrow> CHR ''?'' \<notin> set ((e # rest) ! j))"
  proof
    assume a: "\<forall>x\<in>set rest. CHR ''?'' \<notin> set x"
    show "\<forall>j. 1 \<le> j \<and> j < Suc (length rest) \<longrightarrow> CHR ''?'' \<notin> set ((e # rest) ! j)"
    proof (intro allI impI)
      fix j assume "1 \<le> j \<and> j < Suc (length rest)"
      then obtain i where "j = Suc i" "i < length rest" by (cases j) auto
      with a show "CHR ''?'' \<notin> set ((e # rest) ! j)" by simp
    qed
  next
    assume a: "\<forall>j. 1 \<le> j \<and> j < Suc (length rest) \<longrightarrow> CHR ''?'' \<notin> set ((e # rest) ! j)"
    show "\<forall>x\<in>set rest. CHR ''?'' \<notin> set x"
    proof
      fix x assume "x \<in> set rest"
      then obtain i where "i < length rest" "rest ! i = x" by (auto simp: in_set_conv_nth)
      with a[rule_format, of "Suc i"] show "CHR ''?'' \<notin> set x" by simp
    qed
  qed
  then show ?thesis
    by (simp add: find_follow_def Cons is_question find_rev_None)
qed

lemma strip_leading:
  assumes "\<forall>c\<in>set sp. is_space c"
  shows "strip (sp @ x) = strip x"
proof -
  have "dropWhile is_space (sp @ x) = dropWhile is_space x"
    using assms by (intro dropWhile_append2) auto
  then show ?thesis by (simp add: strip_def lstrip_def)
qed

lemma strip_spaces:
  assumes "\<forall>c\<in>set sp. is_space c"
  shows "strip sp = []"
proof -
  have d: "dropWhile is_space sp = []" using assms by simp
  show ?thesis unfolding strip_def lstrip_def rstrip_def d by simp
qed

lemma strip_trailing:
  assumes "\<forall>c\<in>set sp. is_space c"
  shows "strip (x @ sp) = strip x"
proof (cases "\<forall>c\<in>set x. is_space c")
  case True
  with assms have "\<forall>c\<in>set (x @ sp). is_space c" by auto
  then have "strip (x @ sp) = []" by (rule strip_spaces)
  moreover from True have "strip x = []" by (rule strip_spaces)
  ultimately show ?thesis by simp
next
  case False
  then obtain c where "c \<in> set x" "\<not> is_space c" by blast
  then have "dropWhile is_space (x @ sp) = dropWhile is_space x @ sp"
    by (rule dropWhile_append1)
  moreover have "dropWhile is_space (rev sp @ rev (dropWhile is_space x)) =
                 dropWhile is_space (rev (dropWhile is_space x))"
    using assms by (intro dropWhile_append2) auto
  ultimately show ?thesis by (simp add: strip_def lstrip_def rstrip_def)
qed

text \<open>The lines that are left after stripping, as a recursion over the text: a carriage
  return followed by a line feed may be read as two boundaries, since the empty line
  between them is dropped.\<close>

lemma kept_lines_Nil:
  "[strip l. l \<leftarrow> splitlines_aux cur [], strip l \<noteq> []] =
     (if strip (rev cur) = [] then [] else [strip (rev cur)])"
  by (simp add: strip_def lstrip_def rstrip_def)

lemma kept_lines_Cons:
  "[strip l. l \<leftarrow> splitlines_aux cur (c # rest), strip l \<noteq> []] =
     (if is_linebreak c
      then (if strip (rev cur) = [] then [] else [strip (rev cur)]) @
           [strip l. l \<leftarrow> splitlines_aux [] rest, strip l \<noteq> []]
      else [strip l. l \<leftarrow> splitlines_aux (c # cur) rest, strip l \<noteq> []])"
proof (cases rest)
  case Nil
  then show ?thesis by (simp add: strip_def lstrip_def rstrip_def)
next
  case (Cons d ds)
  have empty: "strip [] = []" by (simp add: strip_def lstrip_def rstrip_def)
  show ?thesis
  proof (cases "c = CHR 0x0D \<and> d = CHR 0x0A")
    case True
    then have lb: "is_linebreak c" "is_linebreak d" "d \<noteq> CHR 0x0D"
      by (simp_all add: is_linebreak_def)
    have "[strip l. l \<leftarrow> splitlines_aux [] (d # ds), strip l \<noteq> []] =
          [strip l. l \<leftarrow> splitlines_aux [] ds, strip l \<noteq> []]"
      using lb by (cases ds) (simp_all add: empty)
    with True lb Cons show ?thesis by simp
  next
    case False
    with Cons show ?thesis by auto
  qed
qed

lemma kept_lines_acc_spaces:
  "\<forall>c\<in>set sp. is_space c \<Longrightarrow>
     [strip l. l \<leftarrow> splitlines_aux (pre @ sp) s, strip l \<noteq> []] =
     [strip l. l \<leftarrow> splitlines_aux pre s, strip l \<noteq> []]"
proof (induction s arbitrary: pre)
  case Nil
  then have "strip (rev sp @ rev pre) = strip (rev pre)" by (intro strip_leading) simp
  then show ?case by (simp only: kept_lines_Nil rev_append)
next
  case (Cons c s)
  from Cons.prems have "strip (rev sp @ rev pre) = strip (rev pre)" by (intro strip_leading) simp
  moreover from Cons.IH[OF Cons.prems, of "c # pre"]
  have "[strip l. l \<leftarrow> splitlines_aux (c # pre @ sp) s, strip l \<noteq> []] =
        [strip l. l \<leftarrow> splitlines_aux (c # pre) s, strip l \<noteq> []]" by simp
  ultimately show ?case by (simp only: kept_lines_Cons rev_append)
qed

lemma kept_lines_leading:
  "\<forall>c\<in>set ws. is_space c \<Longrightarrow>
     [strip l. l \<leftarrow> splitlines_aux [] (ws @ r), strip l \<noteq> []] =
     [strip l. l \<leftarrow> splitlines_aux [] r, strip l \<noteq> []]"
proof (induction ws)
  case Nil
  then show ?case by simp
next
  case (Cons c ws)
  then have IH: "[strip l. l \<leftarrow> splitlines_aux [] (ws @ r), strip l \<noteq> []] =
     [strip l. l \<leftarrow> splitlines_aux [] r, strip l \<noteq> []]" by simp
  have empty: "strip [] = []" by (simp add: strip_def lstrip_def rstrip_def)
  from Cons.prems have "is_space c" by simp
  then have "[strip l. l \<leftarrow> splitlines_aux [c] (ws @ r), strip l \<noteq> []] =
        [strip l. l \<leftarrow> splitlines_aux [] (ws @ r), strip l \<noteq> []]"
    using kept_lines_acc_spaces[of "[c]" "[]" "ws @ r"] by simp
  with IH show ?case by (simp add: kept_lines_Cons empty del: splitlines_aux.simps)
qed

lemma kept_lines_spaces:
  "\<forall>c\<in>set ws. is_space c \<Longrightarrow>
     [strip l. l \<leftarrow> splitlines_aux cur ws, strip l \<noteq> []] =
     [strip l. l \<leftarrow> splitlines_aux cur [], strip l \<noteq> []]"
proof (induction ws arbitrary: cur)
  case Nil
  then show ?case by simp
next
  case (Cons c ws)
  have empty: "strip [] = []" by (simp add: strip_def lstrip_def rstrip_def)
  from Cons.prems have c: "is_space c" and ws: "\<forall>c\<in>set ws. is_space c" by simp_all
  from c have t: "strip (rev cur @ [c]) = strip (rev cur)" by (intro strip_trailing) simp
  show ?case
  proof (cases "is_linebreak c")
    case True
    with Cons.IH[OF ws, of "[]"] show ?thesis
      by (simp add: kept_lines_Cons kept_lines_Nil empty del: splitlines_aux.simps)
  next
    case False
    with Cons.IH[OF ws, of "c # cur"] t show ?thesis
      by (simp add: kept_lines_Cons kept_lines_Nil del: splitlines_aux.simps)
  qed
qed

lemma kept_lines_trailing:
  "\<forall>c\<in>set ws. is_space c \<Longrightarrow>
     [strip l. l \<leftarrow> splitlines_aux cur (s @ ws), strip l \<noteq> []] =
     [strip l. l \<leftarrow> splitlines_aux cur s, strip l \<noteq> []]"
proof (induction s arbitrary: cur)
  case Nil
  then show ?case using kept_lines_spaces by simp
next
  case (Cons c s)
  from Cons.IH[OF Cons.prems] show ?case
    by (simp add: kept_lines_Cons del: splitlines_aux.simps)
qed

text \<open>Stripping the whole text first, as the source does, does not change the lines
  that are kept.\<close>

lemma nonempty_lines_trimmed_lines: "nonempty_lines text = trimmed_lines text"
proof -
  define a where "a = takeWhile is_space text"
  define b where "b = rev (takeWhile is_space (rev (lstrip text)))"
  have a: "\<forall>c\<in>set a. is_space c" by (auto simp: a_def dest: set_takeWhileD)
  have b: "\<forall>c\<in>set b. is_space c" by (auto simp: b_def dest: set_takeWhileD)
  have "lstrip text = strip text @ b"
    unfolding strip_def rstrip_def b_def
    by (metis rev_append rev_rev_ident takeWhile_dropWhile_id)
  moreover have "text = a @ lstrip text" by (simp add: a_def lstrip_def)
  ultimately have t: "text = a @ strip text @ b" by simp
  have "[strip l. l \<leftarrow> splitlines_aux [] (a @ strip text @ b), strip l \<noteq> []] =
        [strip l. l \<leftarrow> splitlines_aux [] (strip text @ b), strip l \<noteq> []]"
    using a by (rule kept_lines_leading)
  also have "\<dots> = [strip l. l \<leftarrow> splitlines_aux [] (strip text), strip l \<noteq> []]"
    using b by (rule kept_lines_trailing)
  finally show ?thesis
    unfolding nonempty_lines_def trimmed_lines_def splitlines_def using t by simp
qed

text \<open>
  Claim C1. For every text, \<open>parse_llm_two_line_response\<close> returns a pair (evaluation,
  follow-up) and raises nothing. With no non-empty trimmed line the pair is two empty
  strings; with exactly one such line it is the empty string and that line; with two or
  more the evaluation is the first line and the follow-up is the last of the later lines
  that contains a question mark, or the second line when none of them does. With three
  lines of which the middle one has the question mark and the last one has none, the
  follow-up is the middle line. The lines are the non-empty trimmed lines of the text,
  \<open>trimmed_lines\<close>; the source takes them from the stripped text, which gives the same
  list.
\<close>

theorem parse_llm_two_line_response_spec:
  "\<exists>ev fu. parse_llm_two_line_response text = Inr (ev, fu) \<and>
     (let ls = trimmed_lines text in
      (ls = [] \<longrightarrow> ev = [] \<and> fu = []) \<and>
      (length ls = 1 \<longrightarrow> ev = [] \<and> fu = ls ! 0) \<and>
      (2 \<le> length ls \<longrightarrow> ev = ls ! 0 \<and>
         (if \<exists>j. 1 \<le> j \<and> j < length ls \<and> CHR ''?'' \<in> set (ls ! j)
          then \<exists>k. 1 \<le> k \<and> k < length ls \<and> fu = ls ! k \<and> CHR ''?'' \<in> set (ls ! k) \<and>
                 (\<forall>j. k < j \<and> j < length ls \<longrightarrow> CHR ''?'' \<notin> set (ls ! j))
          else fu = ls ! 1)) \<and>
      (\<forall>a b c. ls = [a, b, c] \<and> CHR ''?'' \<in> set b \<and> CHR ''?'' \<notin> set c \<longrightarrow> fu = b))"
proof -
  define ls where "ls = trimmed_lines text"
  have nl: "nonempty_lines text = ls"
    by (simp add: ls_def nonempty_lines_trimmed_lines)
  have empty_text: "text = [] \<Longrightarrow> ls = []"
    by (simp add: ls_def trimmed_lines_def splitlines_def)
  consider (none) "ls = []" | (one) "length ls = 1" | (more) "2 \<le> length ls"
    by (cases ls) (auto simp: Suc_le_eq)
  then show ?thesis
  proof cases
    case none
    then have "parse_llm_two_line_response text = Inr ('''', '''')"
      by (simp add: parse_llm_two_line_response_def nl)
    with none show ?thesis by (simp add: ls_def[symmetric])
  next
    case one
    then have "text \<noteq> []" using empty_text by auto
    with one have "parse_llm_two_line_response text = Inr ('''', ls ! 0)"
      by (auto simp: parse_llm_two_line_response_def nl index_def Let_def)
    with one show ?thesis by (auto simp: ls_def[symmetric])
  next
    case more
    then have ne: "text \<noteq> []" "ls \<noteq> []" "length ls \<noteq> 1" "1 < length ls" "0 < length ls"
      using empty_text by auto
    show ?thesis
    proof (cases "find_follow ls")
      case None
      then have nq: "\<forall>j. 1 \<le> j \<and> j < length ls \<longrightarrow> CHR ''?'' \<notin> set (ls ! j)"
        by (simp add: find_follow_None)
      from None ne have "parse_llm_two_line_response text = Inr (ls ! 0, ls ! 1)"
        by (simp add: parse_llm_two_line_response_def nl index_def Let_def)
      moreover have "\<forall>a b c. ls = [a, b, c] \<and> CHR ''?'' \<in> set b \<and> CHR ''?'' \<notin> set c \<longrightarrow> ls ! 1 = b"
        by auto
      ultimately show ?thesis using more nq
        by (auto simp: ls_def[symmetric])
    next
      case (Some fu)
      from find_follow_Some[OF Some more] obtain k where k: "1 \<le> k" "k < length ls"
        "fu = ls ! k" "CHR ''?'' \<in> set (ls ! k)"
        "\<forall>j. k < j \<and> j < length ls \<longrightarrow> CHR ''?'' \<notin> set (ls ! j)" by blast
      from Some ne have p: "parse_llm_two_line_response text = Inr (ls ! 0, fu)"
        by (simp add: parse_llm_two_line_response_def nl index_def Let_def)
      have three: "\<forall>a b c. ls = [a, b, c] \<and> CHR ''?'' \<in> set b \<and> CHR ''?'' \<notin> set c \<longrightarrow> fu = b"
      proof (intro allI impI)
        fix a b c assume h: "ls = [a, b, c] \<and> CHR ''?'' \<in> set b \<and> CHR ''?'' \<notin> set c"
        with k have "k = 1 \<or> k = 2" by auto
        with h k show "fu = b" by auto
      qed
      have ex: "\<exists>j. 1 \<le> j \<and> j < length ls \<and> CHR ''?'' \<in> set (ls ! j)"
        using k by blast
      have "\<exists>k. 1 \<le> k \<and> k < length ls \<and> fu = ls ! k \<and> CHR ''?'' \<in> set (ls ! k) \<and>
                 (\<forall>j. k < j \<and> j < length ls \<longrightarrow> CHR ''?'' \<notin> set (ls ! j))"
        using k by blast
      with p three ex more ne show ?thesis
        by (simp add: ls_def[symmetric] Let_def)
    qed
  qed
qed

theorem parse_llm_two_line_response_spec_witness:
  "trimmed_lines ''Eval.\<newline>What?\<newline>Bye.'' = [''Eval.'', ''What?'', ''Bye.''] \<and>
   parse_llm_two_line_response ''Eval.\<newline>What?\<newline>Bye.'' = Inr (''Eval.'', ''What?'')"
proof -
  have ls: "trimmed_lines ''Eval.\<newline>What?\<newline>Bye.'' = [''Eval.'', ''What?'', ''Bye.'']"
    by (simp add: trimmed_lines_def strip_def lstrip_def rstrip_def splitlines_def is_space_def
        is_linebreak_def)
  from parse_llm_two_line_response_spec[of "''Eval.\<newline>What?\<newline>Bye.''"]
  show ?thesis unfolding ls Let_def by auto
qed


section \<open>Properties of the string functions\<close>

lemma split_aux_spaces: "\<forall>c\<in>set t. is_space c \<Longrightarrow> split_aux w t = split_aux w []"
  by (induction t arbitrary: w) auto

lemma split_aux_trailing: "\<forall>c\<in>set t. is_space c \<Longrightarrow> split_aux w (s @ t) = split_aux w s"
  by (induction s arbitrary: w) (auto simp: split_aux_spaces)

lemma split_aux_leading: "\<forall>c\<in>set t. is_space c \<Longrightarrow> split_aux [] (t @ s) = split_aux [] s"
  by (induction t) auto

lemma split_words_lstrip: "split_words (lstrip s) = split_words s"
proof -
  have "split_aux [] (takeWhile is_space s @ dropWhile is_space s) = split_aux [] (dropWhile is_space s)"
    by (rule split_aux_leading) (auto dest: set_takeWhileD)
  then show ?thesis by (simp add: split_words_def lstrip_def)
qed

lemma split_words_rstrip: "split_words (rstrip s) = split_words s"
proof -
  have s: "s = rstrip s @ rev (takeWhile is_space (rev s))"
    unfolding rstrip_def by (metis rev_append rev_rev_ident takeWhile_dropWhile_id)
  have "split_aux [] (rstrip s @ rev (takeWhile is_space (rev s))) = split_aux [] (rstrip s)"
    by (rule split_aux_trailing) (auto dest: set_takeWhileD)
  with s show ?thesis by (simp add: split_words_def)
qed

lemma split_words_strip: "split_words (strip s) = split_words s"
  by (simp add: strip_def split_words_rstrip split_words_lstrip)

lemma split_aux_word:
  "\<forall>c\<in>set u. \<not> is_space c \<Longrightarrow> split_aux w (u @ r) = split_aux (rev u @ w) r"
  by (induction u arbitrary: w) auto

lemma split_words_join:
  "\<forall>x\<in>set ws. x \<noteq> [] \<and> (\<forall>c\<in>set x. \<not> is_space c) \<Longrightarrow> split_words (join '' '' ws) = ws"
proof (induction "'' ''" ws rule: join.induct)
  case 1
  then show ?case by (simp add: split_words_def)
next
  case (2 w)
  then show ?case using split_aux_word[of w "[]" "[]"] by (simp add: split_words_def)
next
  case (3 w v vs)
  then have "split_aux [] (join '' '' (v # vs)) = v # vs" by (simp add: split_words_def)
  moreover have "split_aux [] (w @ '' '' @ join '' '' (v # vs)) =
        split_aux (rev w) ('' '' @ join '' '' (v # vs))"
    using 3 split_aux_word[of w "[]"] by simp
  ultimately show ?case using 3 by (simp add: split_words_def is_space_def)
qed

section \<open>Properties of the chunker\<close>

lemma chunk_loop_returns:
  "1 \<le> C - ov \<Longrightarrow> \<exists>r. chunk_loop words C ov i acc = Some r"
proof (induction "nat (int (length words) - i)" arbitrary: i acc rule: less_induct)
  case less
  show ?case
  proof (cases "i < int (length words)")
    case True
    have "nat (int (length words) - (i + (C - ov))) < nat (int (length words) - i)"
      using True less.prems by linarith
    from less.hyps[OF this less.prems] show ?thesis
      using True by (subst chunk_loop.simps) simp
  next
    case False
    then show ?thesis by (subst chunk_loop.simps) simp
  qed
qed

lemma chunk_loop_stuck:
  assumes "chunk_loop words C ov i acc = Some r"
  shows "\<not> (C - ov \<le> 0 \<and> i \<le> 0 \<and> words \<noteq> [])"
proof (rule chunk_loop.raw_induct[where P = "\<lambda>words C ov i acc r. \<not> (C - ov \<le> 0 \<and> i \<le> 0 \<and> words \<noteq> [])", OF _ assms])
  fix f words C ov i acc r
  assume IH: "\<And>words C ov i acc r. f words C ov i acc = Some r \<Longrightarrow> \<not> (C - ov \<le> 0 \<and> i \<le> 0 \<and> words \<noteq> [])"
    and body: "(if i < int (length words)
      then f words C ov (i + (C - ov)) (acc @ [join '' '' (py_slice words i (i + C))])
      else Some acc) = Some (r::string list)"
  show "\<not> (C - ov \<le> 0 \<and> i \<le> 0 \<and> words \<noteq> [])"
  proof
    assume h: "C - ov \<le> 0 \<and> i \<le> 0 \<and> words \<noteq> []"
    then have "i < int (length words)" by (cases words) auto
    with body have "f words C ov (i + (C - ov)) (acc @ [join '' '' (py_slice words i (i + C))]) = Some r"
      by simp
    from IH[OF this] h show False by auto
  qed
qed

lemma chunk_loop_diverges:
  "C - ov \<le> 0 \<Longrightarrow> words \<noteq> [] \<Longrightarrow> chunk_loop words C ov 0 [] = None"
  using chunk_loop_stuck[of words C ov 0 "[]"] by (cases "chunk_loop words C ov 0 []") auto

lemma chunk_loop_no_words: "chunk_loop [] C ov 0 [] = Some []"
  by (subst chunk_loop.simps) simp

lemma chunk_text_returns:
  "1 \<le> C - ov \<Longrightarrow> \<exists>r. chunk_text text C ov = Some r"
  using chunk_loop_returns[of C ov "split_words (strip text)" 0 "[]"]
  by (auto simp: chunk_text_def Let_def)

lemma chunk_text_None_iff:
  assumes "C - ov \<le> 0"
  shows "chunk_text text C ov = None \<longleftrightarrow>
           text \<noteq> [] \<and> C < int (length (split_words (strip text))) \<and> split_words (strip text) \<noteq> []"
proof (cases "split_words (strip text) = []")
  case True
  then show ?thesis by (auto simp: chunk_text_def Let_def chunk_loop_no_words)
next
  case False
  with assms show ?thesis by (auto simp: chunk_text_def Let_def chunk_loop_diverges)
qed

text \<open>
  Claim C2, as amended. \<open>_chunk_text\<close> has no check of its configuration and reports no
  error. With a step \<open>C - O\<close> of at least 1 it returns on every text. With a step of 0 or
  less it still returns normally for the empty text (the empty sequence), for a text of at
  most \<open>C\<close> words (one chunk) and for a text without words; on every other text its loop
  does not return.
\<close>

theorem chunk_text_termination:
  "(1 \<le> C - ov \<longrightarrow> (\<exists>r. chunk_text text C ov = Some r)) \<and>
   (C - ov \<le> 0 \<longrightarrow>
      (text = [] \<longrightarrow> chunk_text text C ov = Some []) \<and>
      (text \<noteq> [] \<and> int (length (split_words (strip text))) \<le> C \<longrightarrow>
         chunk_text text C ov = Some [join '' '' (split_words (strip text))]) \<and>
      (text \<noteq> [] \<and> split_words (strip text) = [] \<and> C < 0 \<longrightarrow> chunk_text text C ov = Some []) \<and>
      (text \<noteq> [] \<and> split_words (strip text) \<noteq> [] \<and> C < int (length (split_words (strip text))) \<longrightarrow>
         chunk_text text C ov = None))"
proof (intro conjI impI)
  assume "1 \<le> C - ov"
  then show "\<exists>r. chunk_text text C ov = Some r" by (rule chunk_text_returns)
next
  assume "text = []"
  then show "chunk_text text C ov = Some []" by (simp add: chunk_text_def)
next
  assume "text \<noteq> [] \<and> int (length (split_words (strip text))) \<le> C"
  then show "chunk_text text C ov = Some [join '' '' (split_words (strip text))]"
    by (simp add: chunk_text_def)
next
  assume "text \<noteq> [] \<and> split_words (strip text) = [] \<and> C < 0"
  then show "chunk_text text C ov = Some []"
    by (simp add: chunk_text_def chunk_loop_no_words)
next
  assume "C - ov \<le> 0"
    and "text \<noteq> [] \<and> split_words (strip text) \<noteq> [] \<and> C < int (length (split_words (strip text)))"
  then show "chunk_text text C ov = None"
    by (simp add: chunk_text_None_iff)
qed

theorem chunk_text_termination_witness:
  "(1::int) \<le> 12 - 1 \<and> (\<exists>r. chunk_text ''a b c'' 12 1 = Some r) \<and>
   (5::int) - 5 \<le> 0 \<and> ''a b'' \<noteq> [] \<and> int (length (split_words (strip ''a b''))) \<le> 5 \<and>
   chunk_text ''a b'' 5 5 = Some [''a b''] \<and>
   split_words (strip ''a b c'') \<noteq> [] \<and> 2 < int (length (split_words (strip ''a b c''))) \<and>
   chunk_text ''a b c'' 2 2 = None"
proof -
  have w: "split_words (strip ''a b'') = [''a'', ''b'']" "split_words (strip ''a b c'') = [''a'', ''b'', ''c'']"
    by (simp_all add: split_words_strip) (simp_all add: split_words_def is_space_def)
  show ?thesis
    using chunk_text_termination[of 12 1 "''a b c''"] chunk_text_termination[of 5 5 "''a b''"]
      chunk_text_termination[of 2 2 "''a b c''"]
    by (simp add: w)
qed

theorem chunk_text_not_rejected:
  "chunk_text ''a b'' 5 5 = Some [''a b''] \<and> chunk_text ''a b c'' 2 2 = None"
proof -
  have w: "split_words (strip ''a b'') = [''a'', ''b'']" "split_words (strip ''a b c'') = [''a'', ''b'', ''c'']"
    by (simp_all add: split_words_strip) (simp_all add: split_words_def is_space_def)
  have "chunk_text ''a b'' 5 5 = Some [''a b'']"
    by (simp add: chunk_text_def w)
  moreover have "chunk_text ''a b c'' 2 2 = None"
    by (simp add: chunk_text_def w chunk_loop_diverges)
  ultimately show ?thesis by simp
qed


lemma split_aux_words:
  "x \<in> set (split_aux w s) \<Longrightarrow> \<forall>c\<in>set w. \<not> is_space c \<Longrightarrow>
     x \<noteq> [] \<and> (\<forall>c\<in>set x. \<not> is_space c)"
proof (induction s arbitrary: w)
  case Nil
  then show ?case by (cases "w = []") auto
next
  case (Cons a s)
  show ?case
  proof (cases "is_space a")
    case True
    show ?thesis
    proof (cases "w = []")
      case True
      with \<open>is_space a\<close> Cons.prems(1) have "x \<in> set (split_aux [] s)" by simp
      then show ?thesis by (rule Cons.IH) simp
    next
      case False
      with \<open>is_space a\<close> Cons.prems(1) have "x = rev w \<or> x \<in> set (split_aux [] s)" by simp
      then show ?thesis
      proof
        assume "x = rev w"
        with False Cons.prems(2) show ?thesis by simp
      next
        assume "x \<in> set (split_aux [] s)"
        then show ?thesis by (rule Cons.IH) simp
      qed
    qed
  next
    case False
    with Cons.prems(1) have "x \<in> set (split_aux (a # w) s)" by simp
    then show ?thesis by (rule Cons.IH) (use False Cons.prems(2) in simp)
  qed
qed


lemma split_words_words:
  "\<forall>x\<in>set (split_words s). x \<noteq> [] \<and> (\<forall>c\<in>set x. \<not> is_space c)"
  using split_aux_words[of _ "[]" s] by (auto simp: split_words_def)

lemma split_words_join_split: "split_words (join '' '' (split_words s)) = split_words s"
  by (rule split_words_join) (rule split_words_words)

lemma join_nonempty:
  "ws \<noteq> [] \<Longrightarrow> \<forall>x\<in>set ws. x \<noteq> [] \<Longrightarrow> join sep ws \<noteq> []"
  by (induction sep ws rule: join.induct) auto

text \<open>
  Claim C7, as amended. When the text has more words than the target size, every chunk
  of the returned sequence has more than 10 words. When the text is not empty and has at
  most as many words as the target size, the single chunk is returned without that filter:
  it has the words of the text, however few.
\<close>

theorem chunk_text_word_counts:
  "(text \<noteq> [] \<and> C < int (length (split_words (strip text))) \<and> chunk_text text C ov = Some chunks
      \<longrightarrow> (\<forall>c\<in>set chunks. 10 < length (split_words c))) \<and>
   (text \<noteq> [] \<and> int (length (split_words (strip text))) \<le> C
      \<longrightarrow> (\<exists>c. chunk_text text C ov = Some [c] \<and> split_words c = split_words text))"
proof (intro conjI impI)
  assume h: "text \<noteq> [] \<and> C < int (length (split_words (strip text))) \<and> chunk_text text C ov = Some chunks"
  then obtain cs where "chunk_loop (split_words (strip text)) C ov 0 [] = Some cs"
    and "chunks = [strip c. c \<leftarrow> cs, 10 < length (split_words c)]"
    by (auto simp: chunk_text_def Let_def split: option.splits)
  then show "\<forall>c\<in>set chunks. 10 < length (split_words c)"
    by (auto simp: split_words_strip)
next
  assume "text \<noteq> [] \<and> int (length (split_words (strip text))) \<le> C"
  then have "chunk_text text C ov = Some [join '' '' (split_words (strip text))]"
    by (simp add: chunk_text_def)
  moreover have "split_words (join '' '' (split_words (strip text))) = split_words text"
    by (simp add: split_words_join_split split_words_strip)
  ultimately show "\<exists>c. chunk_text text C ov = Some [c] \<and> split_words c = split_words text"
    by simp
qed

theorem chunk_text_word_counts_witness:
  "''a b c d e f g h i j k l m n o p q r s t u v w x y z'' \<noteq> [] \<and>
   12 < int (length (split_words (strip ''a b c d e f g h i j k l m n o p q r s t u v w x y z''))) \<and>
   chunk_text ''a b c d e f g h i j k l m n o p q r s t u v w x y z'' 12 1 =
     Some [''a b c d e f g h i j k l'', ''l m n o p q r s t u v w''] \<and>
   10 < length (split_words ''a b c d e f g h i j k l'') \<and>
   10 < length (split_words ''l m n o p q r s t u v w'') \<and>
   int (length (split_words (strip ''hello world''))) \<le> 150 \<and>
   (\<exists>c. chunk_text ''hello world'' 150 30 = Some [c] \<and> split_words c = split_words ''hello world'')"
proof -
  have a: "12 < int (length (split_words (strip ''a b c d e f g h i j k l m n o p q r s t u v w x y z'')))"
    by code_simp
  have b: "chunk_text ''a b c d e f g h i j k l m n o p q r s t u v w x y z'' 12 1 =
     Some [''a b c d e f g h i j k l'', ''l m n o p q r s t u v w'']"
    by code_simp
  have c: "int (length (split_words (strip ''hello world''))) \<le> 150"
    by code_simp
  from a b c
    chunk_text_word_counts[of "''a b c d e f g h i j k l m n o p q r s t u v w x y z''" 12 1
      "[''a b c d e f g h i j k l'', ''l m n o p q r s t u v w'']"]
    chunk_text_word_counts[of "''hello world''" 150 30]
  show ?thesis by simp
qed

theorem chunk_text_short_chunk_kept:
  "chunk_text ''hello world'' 150 30 = Some [''hello world''] \<and>
   \<not> 10 < length (split_words ''hello world'')"
  by code_simp

text \<open>
  Claim C8, as amended. For the empty text the result is the empty sequence. For a text
  that has at least one word and at most as many words as the target size the result is
  exactly one chunk: the words of the text joined by single spaces. That chunk is the
  input text itself when the input is a sequence of words separated by single spaces.
\<close>

theorem chunk_text_single_chunk:
  "chunk_text [] C ov = Some [] \<and>
   (split_words (strip text) \<noteq> [] \<and> int (length (split_words (strip text))) \<le> C
      \<longrightarrow> chunk_text text C ov = Some [join '' '' (split_words (strip text))]) \<and>
   (ws \<noteq> [] \<and> (\<forall>x\<in>set ws. x \<noteq> [] \<and> (\<forall>c\<in>set x. \<not> is_space c)) \<and> int (length ws) \<le> C
      \<longrightarrow> chunk_text (join '' '' ws) C ov = Some [join '' '' ws])"
proof (intro conjI impI)
  show "chunk_text [] C ov = Some []" by (simp add: chunk_text_def)
next
  assume h: "split_words (strip text) \<noteq> [] \<and> int (length (split_words (strip text))) \<le> C"
  then have "text \<noteq> []"
    by (auto simp: strip_def lstrip_def rstrip_def split_words_def)
  with h show "chunk_text text C ov = Some [join '' '' (split_words (strip text))]"
    by (simp add: chunk_text_def)
next
  assume h: "ws \<noteq> [] \<and> (\<forall>x\<in>set ws. x \<noteq> [] \<and> (\<forall>c\<in>set x. \<not> is_space c)) \<and> int (length ws) \<le> C"
  then have "split_words (strip (join '' '' ws)) = ws"
    by (simp add: split_words_strip split_words_join)
  moreover from h have "join '' '' ws \<noteq> []" by (simp add: join_nonempty)
  ultimately show "chunk_text (join '' '' ws) C ov = Some [join '' '' ws]"
    using h by (simp add: chunk_text_def)
qed

theorem chunk_text_single_chunk_witness:
  "split_words (strip ''a  b '') \<noteq> [] \<and> int (length (split_words (strip ''a  b ''))) \<le> 150 \<and>
   chunk_text ''a  b '' 150 30 = Some [''a b''] \<and>
   [''a'', ''b''] \<noteq> [] \<and> int (length [''a'', ''b'']) \<le> 150 \<and>
   chunk_text (join '' '' [''a'', ''b'']) 150 30 = Some [join '' '' [''a'', ''b'']] \<and>
   chunk_text ''a b'' 150 30 = Some [''a b'']"
proof -
  have a: "split_words (strip ''a  b '') = [''a'', ''b'']" by code_simp
  have b: "\<forall>x\<in>set [''a'', ''b'']. x \<noteq> [] \<and> (\<forall>c\<in>set x. \<not> is_space c)"
    by (simp add: is_space_def)
  from a b chunk_text_single_chunk[of 150 30 "''a  b ''" "[''a'', ''b'']"]
  show ?thesis by simp
qed

theorem chunk_text_blank_and_spacing:
  "chunk_text '' '' 150 30 = Some [''''] \<and> chunk_text ''a  b'' 150 30 = Some [''a b'']"
  by code_simp

section \<open>Properties of the question budget\<close>

lemma split_on_aux_field:
  "sep \<notin> set u \<Longrightarrow> split_on_aux sep cur (u @ r) = split_on_aux sep (rev u @ cur) r"
  by (induction u arbitrary: cur) auto


lemma split_on_no_sep: "sep \<notin> set s \<Longrightarrow> split_on sep s = [s]"
  using split_on_aux_field[of sep s "[]" "[]"] by (simp add: split_on_def)










section \<open>Properties of the confidence scorer\<close>










text \<open>An exception of the embedding call for the chunks is not caught.\<close>

lemma compute_confidence_score_raises:
  "t \<noteq> [] \<Longrightarrow> chunks \<noteq> [] \<Longrightarrow> compute_confidence_score ua (Inl e) hs t sid chunks = Inl e"
  by (simp add: compute_confidence_score_def answer_similarity_def mean_embedding_of_chunks_def
      embed_texts_def Let_def)




section \<open>Properties of the session state machine\<close>

lemma conclude_turn_sessions:
  "SESSIONS (snd (conclude_turn w3 sid s2 env ut hf t)) =
     (SESSIONS w3)(sid \<mapsto>
        (if compute_max_questions (mode s2) \<le> questions_asked s2
         then s2\<lparr>status := finished,
                 feedback := Val (generate_feedback_for_session (s2\<lparr>status := finished\<rparr>)
                                    (feedback_llm env))\<rparr>
         else s2))"
  by (simp add: conclude_turn_def Let_def)

lemma conclude_turn_reply:
  "\<exists>r. fst (conclude_turn w3 sid s2 env ut hf t) = Inr (Turn_Reply r) \<and>
       r_offtopic r = t_offtopic t \<and>
       r_feedback_ready r = (compute_max_questions (mode s2) \<le> questions_asked s2)"
  by (simp add: conclude_turn_def Let_def)

lemma conclude_turn_calls:
  "calls (snd (conclude_turn w3 sid s2 env ut hf t)) =
     (if compute_max_questions (mode s2) \<le> questions_asked s2
      then calls w3 @ [Completion] else calls w3)"
  by (simp add: conclude_turn_def Let_def)

text \<open>What \<open>submit_response\<close> does to the table: only the entry of the session changes, and
  it changes in one of three ways.\<close>

lemma submit_response_sessions:
  assumes "SESSIONS w sid = Some s"
  shows "\<exists>s'. SESSIONS (snd (submit_response w sid env)) = (SESSIONS w)(sid \<mapsto> s') \<and>
     (s' = s \<or>
      (status s = in_progress \<and>
       (\<exists>ut. s' = s\<lparr>history := history s @ [\<lparr>speaker = ''User'', turn_text = ut\<rparr>]\<rparr>)) \<or>
      (status s = in_progress \<and>
       (\<exists>ut t. let s2 = record_turn (s\<lparr>history := history s @ [\<lparr>speaker = ''User'', turn_text = ut\<rparr>]\<rparr>) t
              in s' = (if compute_max_questions (mode s2) \<le> questions_asked s2
                       then s2\<lparr>status := finished,
                               feedback := Val (generate_feedback_for_session
                                                  (s2\<lparr>status := finished\<rparr>) (feedback_llm env))\<rparr>
                       else s2))))"
proof -
  have same: "(SESSIONS w)(sid \<mapsto> s) = SESSIONS w" using assms by (rule map_upd_triv)
  have ip: "status s \<noteq> finished \<Longrightarrow> status s = in_progress" by (cases "status s") auto
  show ?thesis
  proof (cases "status s = finished")
    case True
    with assms have "SESSIONS (snd (submit_response w sid env)) = SESSIONS w"
      by (simp add: submit_response_def)
    with same show ?thesis by (intro exI[of _ s]) simp
  next
    case False
    note nf = this ip[OF this]
    show ?thesis
    proof (cases "transcription env")
      case (Inl e)
      with assms nf have "SESSIONS (snd (submit_response w sid env)) = SESSIONS w"
        by (simp add: submit_response_def Let_def)
      with same show ?thesis by (intro exI[of _ s]) simp
    next
      case (Inr tr)
      show ?thesis
      proof (cases "strip tr = []")
        case True
        with assms nf Inr have "SESSIONS (snd (submit_response w sid env)) = SESSIONS w"
          by (simp add: submit_response_def Let_def)
        with same show ?thesis by (intro exI[of _ s]) simp
      next
        case False
        define s1 where "s1 = s\<lparr>history := history s @ [\<lparr>speaker = ''User'', turn_text = strip tr\<rparr>]\<rparr>"
        have sub: "submit_response w sid env =
                     answer_turn (w\<lparr>calls := calls w @ [Transcription]\<rparr>) sid s env (strip tr)"
          using assms nf Inr False by (simp add: submit_response_def Let_def)
        show ?thesis
        proof (cases "rag env")
          case (Inl e)
          then have "SESSIONS (snd (submit_response w sid env)) = (SESSIONS w)(sid \<mapsto> s1)"
            by (simp add: sub answer_turn_def Let_def s1_def)
          with nf show ?thesis unfolding s1_def by blast
        next
          case (Inr jd)
          note rag = this
          show ?thesis
          proof (cases "evaluate_turn env (strip tr) sid jd")
            case (Inl e)
            with rag have "SESSIONS (snd (submit_response w sid env)) = (SESSIONS w)(sid \<mapsto> s1)"
              by (simp add: sub answer_turn_def Let_def s1_def)
            with nf show ?thesis unfolding s1_def by blast
          next
            case (Inr t)
            define s2 where "s2 = record_turn s1 t"
            define s' where "s' = (if compute_max_questions (mode s2) \<le> questions_asked s2
                       then s2\<lparr>status := finished,
                               feedback := Val (generate_feedback_for_session
                                                  (s2\<lparr>status := finished\<rparr>) (feedback_llm env))\<rparr>
                       else s2)"
            from rag Inr have "SESSIONS (snd (submit_response w sid env)) = (SESSIONS w)(sid \<mapsto> s')"
              by (simp add: sub answer_turn_def Let_def s1_def[symmetric] s2_def[symmetric]
                  conclude_turn_sessions s'_def)
            moreover have "\<exists>ut t. let s2 = record_turn (s\<lparr>history := history s @ [\<lparr>speaker = ''User'', turn_text = ut\<rparr>]\<rparr>) t
              in s' = (if compute_max_questions (mode s2) \<le> questions_asked s2
                       then s2\<lparr>status := finished,
                               feedback := Val (generate_feedback_for_session
                                                  (s2\<lparr>status := finished\<rparr>) (feedback_llm env))\<rparr>
                       else s2)"
              unfolding Let_def s'_def s2_def s1_def by blast
            ultimately show ?thesis using nf by blast
          qed
        qed
      qed
    qed
  qed
qed

lemma submit_response_unknown:
  "SESSIONS w sid = None \<Longrightarrow> submit_response w sid env = (Inl HTTPException, w)"
  by (simp add: submit_response_def)

lemma record_turn_simps [simp]:
  "mode (record_turn s t) = mode s"
  "status (record_turn s t) = status s"
  "feedback (record_turn s t) = feedback s"
  "questions_asked (record_turn s t) =
     (if t_offtopic t then questions_asked s else questions_asked s + 1)"
  by (simp_all add: record_turn_def)

lemma start_session_sessions:
  "\<exists>s'. SESSIONS (snd (start_session w env a_role a_level a_focus a_mode a_jd_text)) =
          (SESSIONS w)(new_session_id env \<mapsto> s') \<and>
        status s' = in_progress \<and> mode s' = a_mode \<and> feedback s' = PyNone \<and>
        (questions_asked s' = 0 \<or> questions_asked s' = 1)"
proof -
  define s0 where "s0 = \<lparr>session_id = new_session_id env, role = a_role, level = a_level,
    focus = a_focus, mode = a_mode, jd_text = a_jd_text, history = [], questions_asked = 0,
    status = in_progress, feedback = PyNone, current_question = Missing\<rparr>"
  let ?w' = "snd (start_session w env a_role a_level a_focus a_mode a_jd_text)"
  have "SESSIONS ?w' = (SESSIONS w)(new_session_id env \<mapsto> s0) \<or>
        (\<exists>q. SESSIONS ?w' = (SESSIONS w)(new_session_id env \<mapsto>
           s0\<lparr>history := history s0 @ [\<lparr>speaker = ''Interviewer'', turn_text = q\<rparr>],
              questions_asked := 1, current_question := Val q\<rparr>))"
  proof (cases "start_rag env")
    case (Inl e)
    then show ?thesis by (simp add: start_session_def Let_def s0_def)
  next
    case (Inr jd)
    show ?thesis
    proof (cases "start_llm env")
      case (Inl e)
      with Inr show ?thesis by (simp add: start_session_def Let_def s0_def)
    next
      case (Inr q)
      with \<open>start_rag env = Inr jd\<close> have "SESSIONS ?w' = (SESSIONS w)(new_session_id env \<mapsto>
           s0\<lparr>history := history s0 @ [\<lparr>speaker = ''Interviewer'', turn_text = q\<rparr>],
              questions_asked := 1, current_question := Val q\<rparr>)"
        by (simp add: start_session_def Let_def s0_def)
      then show ?thesis by blast
    qed
  qed
  then show ?thesis
  proof
    assume "SESSIONS ?w' = (SESSIONS w)(new_session_id env \<mapsto> s0)"
    then show ?thesis by (intro exI[of _ s0]) (simp add: s0_def)
  next
    assume "\<exists>q. SESSIONS ?w' = (SESSIONS w)(new_session_id env \<mapsto>
           s0\<lparr>history := history s0 @ [\<lparr>speaker = ''Interviewer'', turn_text = q\<rparr>],
              questions_asked := 1, current_question := Val q\<rparr>)"
    then obtain q where "SESSIONS ?w' = (SESSIONS w)(new_session_id env \<mapsto>
           s0\<lparr>history := history s0 @ [\<lparr>speaker = ''Interviewer'', turn_text = q\<rparr>],
              questions_asked := 1, current_question := Val q\<rparr>)" by blast
    then show ?thesis
      by (intro exI[of _ "s0\<lparr>history := history s0 @ [\<lparr>speaker = ''Interviewer'', turn_text = q\<rparr>],
              questions_asked := 1, current_question := Val q\<rparr>"]) (simp add: s0_def)
  qed
qed

lemma end_interview_sessions:
  assumes "SESSIONS w sid = Some s"
  shows "\<exists>s'. SESSIONS (snd (end_interview w sid fb_llm)) = (SESSIONS w)(sid \<mapsto> s') \<and>
     (s' = s \<or>
      s' = s\<lparr>status := finished,
             feedback := Val (generate_feedback_for_session (s\<lparr>status := finished\<rparr>) fb_llm)\<rparr>)"
proof (cases "status s = finished \<and> truthy (feedback s)")
  case True
  with assms have "SESSIONS (snd (end_interview w sid fb_llm)) = SESSIONS w"
    by (simp add: end_interview_def)
  moreover have "(SESSIONS w)(sid \<mapsto> s) = SESSIONS w" using assms by (rule map_upd_triv)
  ultimately show ?thesis by (intro exI[of _ s]) simp
next
  case False
  with assms have "SESSIONS (snd (end_interview w sid fb_llm)) = (SESSIONS w)(sid \<mapsto>
      s\<lparr>status := finished,
        feedback := Val (generate_feedback_for_session (s\<lparr>status := finished\<rparr>) fb_llm)\<rparr>)"
    by (auto simp: end_interview_def Let_def)
  then show ?thesis by blast
qed

lemma end_interview_unknown:
  "SESSIONS w sid = None \<Longrightarrow> end_interview w sid fb_llm = (Inl HTTPException, w)"
  by (simp add: end_interview_def)

text \<open>One operation keeps every session in the table, never lowers its counter and
  never takes it out of the finished state.\<close>

lemma step_monotone:
  assumes "step w w'" and "SESSIONS w k = Some s"
  shows "\<exists>s'. SESSIONS w' k = Some s' \<and> questions_asked s \<le> questions_asked s' \<and>
              (status s = finished \<longrightarrow> status s' = finished)"
  using assms
proof (cases rule: step.cases)
  case (start env a_role a_level a_focus a_mode a_jd_text)
  from start(2) assms(2) have "k \<noteq> new_session_id env" by auto
  with start_session_sessions[of w env a_role a_level a_focus a_mode a_jd_text] start(1) assms(2)
  show ?thesis by auto
next
  case (submit sid env)
  show ?thesis
  proof (cases "SESSIONS w sid")
    case None
    with submit assms(2) show ?thesis by (simp add: submit_response_unknown)
  next
    case (Some s0)
    from submit_response_sessions[OF Some, of env] obtain s1 where
      tab: "SESSIONS w' = (SESSIONS w)(sid \<mapsto> s1)" and
      how: "s1 = s0 \<or>
      (status s0 = in_progress \<and>
       (\<exists>ut. s1 = s0\<lparr>history := history s0 @ [\<lparr>speaker = ''User'', turn_text = ut\<rparr>]\<rparr>)) \<or>
      (status s0 = in_progress \<and>
       (\<exists>ut t. let s2 = record_turn (s0\<lparr>history := history s0 @ [\<lparr>speaker = ''User'', turn_text = ut\<rparr>]\<rparr>) t
              in s1 = (if compute_max_questions (mode s2) \<le> questions_asked s2
                       then s2\<lparr>status := finished,
                               feedback := Val (generate_feedback_for_session
                                                  (s2\<lparr>status := finished\<rparr>) (feedback_llm env))\<rparr>
                       else s2)))"
      using submit by auto
    show ?thesis
    proof (cases "k = sid")
      case False
      with tab assms(2) show ?thesis by simp
    next
      case True
      with Some assms(2) have "s0 = s" by simp
      with how have "questions_asked s \<le> questions_asked s1 \<and>
              (status s = finished \<longrightarrow> status s1 = finished)"
        by (auto simp: Let_def split: if_splits)
      with tab True show ?thesis by simp
    qed
  qed
next
  case (ending sid fb_llm)
  show ?thesis
  proof (cases "SESSIONS w sid")
    case None
    with ending assms(2) show ?thesis by (simp add: end_interview_unknown)
  next
    case (Some s0)
    from end_interview_sessions[OF Some, of fb_llm] obtain s1 where
      tab: "SESSIONS w' = (SESSIONS w)(sid \<mapsto> s1)" and
      how: "s1 = s0 \<or> s1 = s0\<lparr>status := finished,
             feedback := Val (generate_feedback_for_session (s0\<lparr>status := finished\<rparr>) fb_llm)\<rparr>"
      using ending by auto
    show ?thesis
    proof (cases "k = sid")
      case False
      with tab assms(2) show ?thesis by simp
    next
      case True
      with Some assms(2) have "s0 = s" by simp
      with how have "questions_asked s \<le> questions_asked s1 \<and>
              (status s = finished \<longrightarrow> status s1 = finished)" by auto
      with tab True show ?thesis by simp
    qed
  qed
qed

text \<open>
  Claim C5. Across every sequence of \<open>start\<close>, \<open>submit_answer\<close> and \<open>end_interview\<close>
  operations, from any state, a session stays in the table, its counter of questions
  asked never decreases, and once its status is finished it stays finished.
\<close>

theorem counter_and_status_monotone:
  assumes "step\<^sup>*\<^sup>* w w'" and "SESSIONS w k = Some s"
  shows "\<exists>s'. SESSIONS w' k = Some s' \<and> questions_asked s \<le> questions_asked s' \<and>
              (status s = finished \<longrightarrow> status s' = finished)"
  using assms
proof (induction rule: rtranclp_induct)
  case base
  then show ?case by simp
next
  case (step y z)
  then obtain s1 where s1: "SESSIONS y k = Some s1" "questions_asked s \<le> questions_asked s1"
    "status s = finished \<longrightarrow> status s1 = finished" by blast
  from step_monotone[OF step(2) s1(1)] obtain s2 where
    "SESSIONS z k = Some s2" "questions_asked s1 \<le> questions_asked s2"
    "status s1 = finished \<longrightarrow> status s2 = finished" by blast
  with s1 show ?case by auto
qed

lemma in_progress_or_finished: "status s \<noteq> finished \<Longrightarrow> status s = in_progress"
  by (cases "status s") auto

lemma step_session_ok:
  assumes "step w w'" and ok: "\<forall>k s. SESSIONS w k = Some s \<longrightarrow> session_ok s"
  shows "\<forall>k s. SESSIONS w' k = Some s \<longrightarrow> session_ok s"
  using assms(1)
proof (cases rule: step.cases)
  case (start env a_role a_level a_focus a_mode a_jd_text)
  from start_session_sessions[of w env a_role a_level a_focus a_mode a_jd_text] start(1)
  obtain s1 where tab: "SESSIONS w' = (SESSIONS w)(new_session_id env \<mapsto> s1)"
    and s1: "status s1 = in_progress" "questions_asked s1 = 0 \<or> questions_asked s1 = 1"
    by auto
  from s1 have "session_ok s1" by (auto simp: session_ok_def)
  with tab ok show ?thesis by (auto split: if_splits)
next
  case (submit sid env)
  show ?thesis
  proof (cases "SESSIONS w sid")
    case None
    with submit ok show ?thesis by (simp add: submit_response_unknown)
  next
    case (Some s0)
    from submit_response_sessions[OF Some, of env] obtain s1 where
      tab: "SESSIONS w' = (SESSIONS w)(sid \<mapsto> s1)" and
      how: "s1 = s0 \<or>
      (status s0 = in_progress \<and>
       (\<exists>ut. s1 = s0\<lparr>history := history s0 @ [\<lparr>speaker = ''User'', turn_text = ut\<rparr>]\<rparr>)) \<or>
      (status s0 = in_progress \<and>
       (\<exists>ut t. let s2 = record_turn (s0\<lparr>history := history s0 @ [\<lparr>speaker = ''User'', turn_text = ut\<rparr>]\<rparr>) t
              in s1 = (if compute_max_questions (mode s2) \<le> questions_asked s2
                       then s2\<lparr>status := finished,
                               feedback := Val (generate_feedback_for_session
                                                  (s2\<lparr>status := finished\<rparr>) (feedback_llm env))\<rparr>
                       else s2)))"
      using submit by auto
    from ok Some have ok0: "session_ok s0" by blast
    from how have "session_ok s1"
    proof (elim disjE conjE exE)
      assume "s1 = s0"
      with ok0 show ?thesis by simp
    next
      fix ut assume "s1 = s0\<lparr>history := history s0 @ [\<lparr>speaker = ''User'', turn_text = ut\<rparr>]\<rparr>"
      with ok0 show ?thesis by (simp add: session_ok_def)
    next
      fix ut t
      assume ip: "status s0 = in_progress"
        and "let s2 = record_turn (s0\<lparr>history := history s0 @ [\<lparr>speaker = ''User'', turn_text = ut\<rparr>]\<rparr>) t
              in s1 = (if compute_max_questions (mode s2) \<le> questions_asked s2
                       then s2\<lparr>status := finished,
                               feedback := Val (generate_feedback_for_session
                                                  (s2\<lparr>status := finished\<rparr>) (feedback_llm env))\<rparr>
                       else s2)"
      then show ?thesis
        by (auto simp: session_ok_def Let_def split: if_splits)
    qed
    with tab ok show ?thesis by (auto split: if_splits)
  qed
next
  case (ending sid fb_llm)
  show ?thesis
  proof (cases "SESSIONS w sid")
    case None
    with ending ok show ?thesis by (simp add: end_interview_unknown)
  next
    case (Some s0)
    from end_interview_sessions[OF Some, of fb_llm] obtain s1 where
      tab: "SESSIONS w' = (SESSIONS w)(sid \<mapsto> s1)" and
      how: "s1 = s0 \<or> s1 = s0\<lparr>status := finished,
             feedback := Val (generate_feedback_for_session (s0\<lparr>status := finished\<rparr>) fb_llm)\<rparr>"
      using ending by auto
    from ok Some have "session_ok s0" by blast
    with how have "session_ok s1" by (auto simp: session_ok_def)
    with tab ok show ?thesis by (auto split: if_splits)
  qed
qed

lemma reachable_session_ok:
  assumes "reachable w" and "SESSIONS w k = Some s"
  shows "session_ok s"
proof -
  from assms(1) have "step\<^sup>*\<^sup>* initial_world w" by (simp add: reachable_def)
  then have "\<forall>k s. SESSIONS w k = Some s \<longrightarrow> session_ok s"
  proof (induction rule: rtranclp_induct)
    case base
    then show ?case by (simp add: initial_world_def)
  next
    case (step y z)
    from step_session_ok[OF step(2) step(3)] show ?case .
  qed
  with assms(2) show ?thesis by blast
qed

lemma reachable_step: "reachable w \<Longrightarrow> step w w' \<Longrightarrow> reachable w'"
  by (simp add: reachable_def)

lemma reachable_demo_world: "reachable (demo_world m)"
proof -
  have "reachable initial_world" by (simp add: reachable_def)
  moreover have "step initial_world (demo_world m)"
    unfolding demo_world_def by (rule step.start) (simp add: initial_world_def)
  ultimately show ?thesis by (rule reachable_step)
qed

lemma reachable_demo_finished_world: "reachable demo_finished_world"
  unfolding demo_finished_world_def
  by (rule reachable_step[OF reachable_demo_world]) (rule step.ending)

text \<open>A response of \<open>submit_response\<close> that is flagged off-topic comes from step 13 or from
  step 11, after an evaluated turn.\<close>

lemma submit_response_offtopic:
  assumes "SESSIONS w sid = Some s"
    and "fst (submit_response w sid env) = Inr (Turn_Reply r)" and "r_offtopic r"
  shows "\<exists>ut w3 t. status s = in_progress \<and> t_offtopic t \<and>
           submit_response w sid env =
             conclude_turn w3 sid
               (record_turn (s\<lparr>history := history s @ [\<lparr>speaker = ''User'', turn_text = ut\<rparr>]\<rparr>) t)
               env ut (detect_hesitation (hes_search env) ut) t \<and>
           SESSIONS w3 = (SESSIONS w)(sid \<mapsto> s\<lparr>history := history s @ [\<lparr>speaker = ''User'', turn_text = ut\<rparr>]\<rparr>)"
proof -
  have nf: "status s \<noteq> finished"
    using assms(1,2) by (auto simp: submit_response_def)
  then have ip: "status s = in_progress" by (rule in_progress_or_finished)
  from assms(1,2) nf obtain tr where tr: "transcription env = Inr tr"
    by (cases "transcription env") (auto simp: submit_response_def Let_def)
  have ne: "strip tr \<noteq> []"
    using assms nf tr by (auto simp: submit_response_def Let_def repeat_reply_def)
  have sub: "submit_response w sid env =
               answer_turn (w\<lparr>calls := calls w @ [Transcription]\<rparr>) sid s env (strip tr)"
    using assms(1) nf tr ne by (simp add: submit_response_def Let_def)
  from assms(2) obtain jd where jd: "rag env = Inr jd"
    by (cases "rag env") (auto simp: sub answer_turn_def Let_def)
  from assms(2) jd obtain t where t: "evaluate_turn env (strip tr) sid jd = Inr t"
    by (cases "evaluate_turn env (strip tr) sid jd") (auto simp: sub answer_turn_def Let_def)
  define s1 where "s1 = s\<lparr>history := history s @ [\<lparr>speaker = ''User'', turn_text = strip tr\<rparr>]\<rparr>"
  define w3 where "w3 = w\<lparr>SESSIONS := (SESSIONS w)(sid \<mapsto> s1),
                          calls := calls w @ [Transcription, Retrieval, Completion]\<rparr>"
  have eq: "submit_response w sid env =
          conclude_turn w3 sid (record_turn s1 t) env (strip tr)
            (detect_hesitation (hes_search env) (strip tr)) t"
    using jd t by (simp add: sub answer_turn_def Let_def s1_def w3_def)
  from conclude_turn_reply[of w3 sid "record_turn s1 t" env "strip tr"
      "detect_hesitation (hes_search env) (strip tr)" t] assms(2,3) eq
  have "t_offtopic t" by auto
  with ip eq show ?thesis unfolding s1_def
    by (intro exI[of _ "strip tr"] exI[of _ w3] exI[of _ t]) (simp add: w3_def s1_def)
qed

text \<open>What an off-topic turn does to the session and to the response.\<close>

lemma offtopic_turn_effect:
  assumes "SESSIONS w sid = Some s"
    and "submit_response w sid env = (Inr (Turn_Reply r), w')"
    and "r_offtopic r"
  shows "\<exists>s'. SESSIONS w' sid = Some s' \<and> status s = in_progress \<and>
           questions_asked s' = questions_asked s \<and>
           (status s' = finished \<longleftrightarrow> compute_max_questions (mode s) \<le> questions_asked s) \<and>
           (status s' = in_progress \<longleftrightarrow> questions_asked s < compute_max_questions (mode s)) \<and>
           (r_feedback_ready r \<longleftrightarrow> compute_max_questions (mode s) \<le> questions_asked s)"
proof -
  from assms(2) have fst: "fst (submit_response w sid env) = Inr (Turn_Reply r)" by simp
  from submit_response_offtopic[OF assms(1) fst assms(3)] obtain ut w3 t where
    ip: "status s = in_progress" and off: "t_offtopic t" and
    eq: "submit_response w sid env =
             conclude_turn w3 sid
               (record_turn (s\<lparr>history := history s @ [\<lparr>speaker = ''User'', turn_text = ut\<rparr>]\<rparr>) t)
               env ut (detect_hesitation (hes_search env) ut) t"
    by blast
  define s2 where "s2 = record_turn (s\<lparr>history := history s @ [\<lparr>speaker = ''User'', turn_text = ut\<rparr>]\<rparr>) t"
  have s2: "mode s2 = mode s" "questions_asked s2 = questions_asked s" "status s2 = in_progress"
    using off ip by (simp_all add: s2_def)
  define s' where "s' = (if compute_max_questions (mode s2) \<le> questions_asked s2
         then s2\<lparr>status := finished,
                 feedback := Val (generate_feedback_for_session (s2\<lparr>status := finished\<rparr>)
                                    (feedback_llm env))\<rparr>
         else s2)"
  have ct: "conclude_turn w3 sid s2 env ut (detect_hesitation (hes_search env) ut) t =
              (Inr (Turn_Reply r), w')"
    using eq assms(2) by (simp add: s2_def)
  then have "w' = snd (conclude_turn w3 sid s2 env ut (detect_hesitation (hes_search env) ut) t)"
    by simp
  then have tab: "SESSIONS w' = (SESSIONS w3)(sid \<mapsto> s')"
    by (simp only: conclude_turn_sessions s'_def)
  from ct have "fst (conclude_turn w3 sid s2 env ut (detect_hesitation (hes_search env) ut) t) =
                  Inr (Turn_Reply r)" by simp
  with conclude_turn_reply[of w3 sid s2 env ut "detect_hesitation (hes_search env) ut" t]
  have "r_feedback_ready r = (compute_max_questions (mode s2) \<le> questions_asked s2)"
    by auto
  with s2 have ready: "r_feedback_ready r \<longleftrightarrow> compute_max_questions (mode s) \<le> questions_asked s"
    by simp
  have a: "questions_asked s' = questions_asked s" using s2 by (simp add: s'_def)
  have b: "status s' = finished \<longleftrightarrow> compute_max_questions (mode s) \<le> questions_asked s"
    using s2 by (simp add: s'_def)
  have c: "status s' = in_progress \<longleftrightarrow> questions_asked s < compute_max_questions (mode s)"
    using s2 by (auto simp: s'_def)
  from tab a b c ready ip show ?thesis by simp
qed

text \<open>
  Claim C4, as amended. A submitted answer that is flagged off-topic never increments the
  counter of questions asked. The test of the budget runs on every turn: the session is
  finished, and the feedback ready, exactly when the counter had already reached the
  budget before the turn. In a reachable state this cannot happen to a session whose
  budget is at least 2, so there an off-topic answer leaves the session in progress.
\<close>

theorem offtopic_answer:
  assumes "SESSIONS w sid = Some s"
    and "submit_response w sid env = (Inr (Turn_Reply r), w')"
    and "r_offtopic r"
  shows "\<exists>s'. SESSIONS w' sid = Some s' \<and>
           questions_asked s' = questions_asked s \<and>
           (status s' = finished \<longleftrightarrow> compute_max_questions (mode s) \<le> questions_asked s) \<and>
           (r_feedback_ready r \<longleftrightarrow> compute_max_questions (mode s) \<le> questions_asked s) \<and>
           (reachable w \<and> 2 \<le> compute_max_questions (mode s)
              \<longrightarrow> status s' = in_progress \<and> \<not> r_feedback_ready r)"
proof -
  from offtopic_turn_effect[OF assms] obtain s' where
    e: "SESSIONS w' sid = Some s'" "status s = in_progress"
      "questions_asked s' = questions_asked s"
      "status s' = finished \<longleftrightarrow> compute_max_questions (mode s) \<le> questions_asked s"
      "status s' = in_progress \<longleftrightarrow> questions_asked s < compute_max_questions (mode s)"
      "r_feedback_ready r \<longleftrightarrow> compute_max_questions (mode s) \<le> questions_asked s"
    by blast
  have "reachable w \<and> 2 \<le> compute_max_questions (mode s)
              \<longrightarrow> status s' = in_progress \<and> \<not> r_feedback_ready r"
  proof
    assume h: "reachable w \<and> 2 \<le> compute_max_questions (mode s)"
    with reachable_session_ok[OF _ assms(1)] e(2)
    have "questions_asked s < compute_max_questions (mode s)" by (simp add: session_ok_def)
    with e show "status s' = in_progress \<and> \<not> r_feedback_ready r" by simp
  qed
  with e show ?thesis by blast
qed

lemma demo_world_session:
  "SESSIONS (demo_world m) ''s1'' =
     Some \<lparr>session_id = ''s1'', role = ''Engineer'', level = ''Mid-level'', focus = ''backend'',
           mode = m, jd_text = '''',
           history = [\<lparr>speaker = ''Interviewer'', turn_text = ''How do you design a cache?''\<rparr>],
           questions_asked = 1, status = in_progress, feedback = PyNone,
           current_question = Val ''How do you design a cache?''\<rparr>"
  by (simp add: demo_world_def start_session_def demo_start_env_def initial_world_def Let_def)

lemma demo_parse:
  "parse_llm_two_line_response ''[OFFTOPIC] Irrelevant.\<newline>Could you answer the question?'' =
     Inr (''[OFFTOPIC] Irrelevant.'', ''Could you answer the question?'')"
  by code_simp

lemma demo_evaluate_turn:
  "\<exists>t. evaluate_turn demo_offtopic_env ''I like pizza'' ''s1'' [] = Inr t \<and> t_offtopic t"
proof -
  have "startswith (strip ''[OFFTOPIC] Irrelevant.'') ''[OFFTOPIC]''" by code_simp
  then show ?thesis
    by (simp add: evaluate_turn_def demo_offtopic_env_def demo_parse Let_def)
qed

lemma demo_submit:
  "\<exists>r w'. submit_response (demo_world m) ''s1'' demo_offtopic_env = (Inr (Turn_Reply r), w') \<and>
          r_offtopic r"
proof -
  from demo_evaluate_turn obtain t where
    t: "evaluate_turn demo_offtopic_env ''I like pizza'' ''s1'' [] = Inr t" "t_offtopic t" by blast
  have s: "strip ''I like pizza'' = ''I like pizza''" by code_simp
  have tr: "transcription demo_offtopic_env = Inr ''I like pizza''" "rag demo_offtopic_env = Inr []"
    by (simp_all add: demo_offtopic_env_def)
  let ?s = "the (SESSIONS (demo_world m) ''s1'')"
  let ?u = "?s\<lparr>history := history ?s @ [\<lparr>speaker = ''User'', turn_text = ''I like pizza''\<rparr>]\<rparr>"
  obtain w3 where "submit_response (demo_world m) ''s1'' demo_offtopic_env =
      conclude_turn w3 ''s1'' (record_turn ?u t) demo_offtopic_env ''I like pizza''
        (detect_hesitation (hes_search demo_offtopic_env) ''I like pizza'') t"
    using t(1) by (simp add: submit_response_def demo_world_session tr s answer_turn_def Let_def)
  with conclude_turn_reply[of w3 "''s1''" "record_turn ?u t" demo_offtopic_env "''I like pizza''"
      "detect_hesitation (hes_search demo_offtopic_env) ''I like pizza''" t] t(2)
  show ?thesis by (metis prod.collapse)
qed

theorem offtopic_answer_witness:
  "\<exists>s r w'. SESSIONS (demo_world ''Quick|10'') ''s1'' = Some s \<and>
     submit_response (demo_world ''Quick|10'') ''s1'' demo_offtopic_env = (Inr (Turn_Reply r), w') \<and>
     r_offtopic r \<and> reachable (demo_world ''Quick|10'') \<and> 2 \<le> compute_max_questions (mode s) \<and>
     (\<exists>s'. SESSIONS w' ''s1'' = Some s' \<and> questions_asked s' = questions_asked s \<and>
           status s' = in_progress \<and> \<not> r_feedback_ready r)"
proof -
  from demo_submit[of "''Quick|10''"] obtain r w' where
    sub: "submit_response (demo_world ''Quick|10'') ''s1'' demo_offtopic_env = (Inr (Turn_Reply r), w')"
    and off: "r_offtopic r" by blast
  have q: "compute_max_questions ''Quick|10'' = 6" by code_simp
  from offtopic_answer[OF demo_world_session sub off] reachable_demo_world[of "''Quick|10''"] q
  show ?thesis using sub off by (auto simp: demo_world_session)
qed

theorem offtopic_answer_finishes:
  "reachable (demo_world ''Custom|1'') \<and>
   map_option status (SESSIONS (demo_world ''Custom|1'') ''s1'') = Some in_progress \<and>
   (case fst (submit_response (demo_world ''Custom|1'') ''s1'' demo_offtopic_env) of
      Inr (Turn_Reply r) \<Rightarrow> r_offtopic r \<and> r_feedback_ready r
    | _ \<Rightarrow> False) \<and>
   map_option status
     (SESSIONS (snd (submit_response (demo_world ''Custom|1'') ''s1'' demo_offtopic_env)) ''s1'') =
     Some finished"
proof -
  from demo_submit[of "''Custom|1''"] obtain r w' where
    sub: "submit_response (demo_world ''Custom|1'') ''s1'' demo_offtopic_env = (Inr (Turn_Reply r), w')"
    and off: "r_offtopic r" by blast
  have q: "compute_max_questions ''Custom|1'' = 1" by code_simp
  from offtopic_turn_effect[OF demo_world_session sub off] q
  obtain s' where "SESSIONS w' ''s1'' = Some s'" "status s' = finished" "r_feedback_ready r"
    by auto
  with sub off reachable_demo_world[of "''Custom|1''"] show ?thesis
    by (simp add: demo_world_session)
qed

lemma demo_finished_world_session:
  "SESSIONS demo_finished_world ''s1'' =
     Some \<lparr>session_id = ''s1'', role = ''Engineer'', level = ''Mid-level'', focus = ''backend'',
           mode = ''Quick|10'', jd_text = '''',
           history = [\<lparr>speaker = ''Interviewer'', turn_text = ''How do you design a cache?''\<rparr>],
           questions_asked = 1, status = finished, feedback = Val ''Weak.'',
           current_question = Val ''How do you design a cache?''\<rparr>"
  by (simp add: demo_finished_world_def end_interview_def demo_world_session Let_def
      generate_feedback_for_session_def)

theorem counter_and_status_monotone_witness:
  "step\<^sup>*\<^sup>* (demo_world ''Quick|10'') demo_finished_world \<and>
   (\<exists>s. SESSIONS (demo_world ''Quick|10'') ''s1'' = Some s \<and>
     (\<exists>s'. SESSIONS demo_finished_world ''s1'' = Some s' \<and>
           questions_asked s \<le> questions_asked s' \<and> status s' = finished)) \<and>
   step\<^sup>*\<^sup>* demo_finished_world (snd (submit_response demo_finished_world ''s1'' demo_offtopic_env)) \<and>
   (\<exists>s. SESSIONS demo_finished_world ''s1'' = Some s \<and> status s = finished \<and>
     (\<exists>s'. SESSIONS (snd (submit_response demo_finished_world ''s1'' demo_offtopic_env)) ''s1'' = Some s' \<and>
           questions_asked s \<le> questions_asked s' \<and> status s' = finished))"
proof -
  have a: "step\<^sup>*\<^sup>* (demo_world ''Quick|10'') demo_finished_world"
    unfolding demo_finished_world_def by (rule r_into_rtranclp) (rule step.ending)
  have b: "step\<^sup>*\<^sup>* demo_finished_world
             (snd (submit_response demo_finished_world ''s1'' demo_offtopic_env))"
    by (rule r_into_rtranclp) (rule step.submit)
  from counter_and_status_monotone[OF a demo_world_session]
    counter_and_status_monotone[OF b demo_finished_world_session] a b
  show ?thesis by (simp add: demo_world_session demo_finished_world_session)
qed

text \<open>
  Claim C6, as amended. On a session that is finished and has a feedback text that is
  not empty, \<open>end_interview\<close> changes nothing and calls no service, and its response has the
  status, a message that the feedback was already generated and the session identifier,
  but no feedback field; the stored feedback stays readable through \<open>get_feedback\<close>. In
  every other case \<open>end_interview\<close> finishes the session, generates the feedback with one
  completion call and returns it; when that text is not empty, a second call is the
  no-operation just described.
\<close>

theorem end_interview_twice:
  "(SESSIONS w sid = Some s \<and> status s = finished \<and> feedback s = Val fb \<and> fb \<noteq> [] \<longrightarrow>
      end_interview w sid fb_llm =
        (Inr \<lparr>er_status = ''finished'', er_message = ''Feedback already generated.'',
              er_session_id = sid, er_feedback = None\<rparr>, w) \<and>
      get_feedback w sid = Inr fb) \<and>
   (SESSIONS w sid = Some s \<and> \<not> (status s = finished \<and> truthy (feedback s)) \<longrightarrow>
      (\<exists>w1 text1. end_interview w sid fb_llm =
          (Inr \<lparr>er_status = ''finished'', er_message = ''Feedback generated.'',
                er_session_id = sid, er_feedback = Some text1\<rparr>, w1) \<and>
        text1 = generate_feedback_for_session (s\<lparr>status := finished\<rparr>) fb_llm \<and>
        calls w1 = calls w @ [Completion] \<and>
        (text1 \<noteq> [] \<longrightarrow>
           end_interview w1 sid fb_llm2 =
             (Inr \<lparr>er_status = ''finished'', er_message = ''Feedback already generated.'',
                   er_session_id = sid, er_feedback = None\<rparr>, w1) \<and>
           get_feedback w1 sid = Inr text1)))"
proof (intro conjI impI)
  assume h: "SESSIONS w sid = Some s \<and> status s = finished \<and> feedback s = Val fb \<and> fb \<noteq> []"
  then show "end_interview w sid fb_llm =
        (Inr \<lparr>er_status = ''finished'', er_message = ''Feedback already generated.'',
              er_session_id = sid, er_feedback = None\<rparr>, w)"
    by (simp add: end_interview_def truthy_def)
  from h show "get_feedback w sid = Inr fb" by (simp add: get_feedback_def)
next
  assume h: "SESSIONS w sid = Some s \<and> \<not> (status s = finished \<and> truthy (feedback s))"
  define text1 where "text1 = generate_feedback_for_session (s\<lparr>status := finished\<rparr>) fb_llm"
  define w1 where "w1 = w\<lparr>SESSIONS := (SESSIONS w)(sid \<mapsto> s\<lparr>status := finished, feedback := Val text1\<rparr>),
                          calls := calls w @ [Completion]\<rparr>"
  have first: "end_interview w sid fb_llm =
          (Inr \<lparr>er_status = ''finished'', er_message = ''Feedback generated.'',
                er_session_id = sid, er_feedback = Some text1\<rparr>, w1)"
    using h by (auto simp: end_interview_def Let_def text1_def w1_def)
  have second: "text1 \<noteq> [] \<longrightarrow>
           end_interview w1 sid fb_llm2 =
             (Inr \<lparr>er_status = ''finished'', er_message = ''Feedback already generated.'',
                   er_session_id = sid, er_feedback = None\<rparr>, w1) \<and>
           get_feedback w1 sid = Inr text1"
    by (simp add: end_interview_def get_feedback_def truthy_def w1_def)
  have "calls w1 = calls w @ [Completion]" by (simp add: w1_def)
  with first second show "\<exists>w1 text1. end_interview w sid fb_llm =
          (Inr \<lparr>er_status = ''finished'', er_message = ''Feedback generated.'',
                er_session_id = sid, er_feedback = Some text1\<rparr>, w1) \<and>
        text1 = generate_feedback_for_session (s\<lparr>status := finished\<rparr>) fb_llm \<and>
        calls w1 = calls w @ [Completion] \<and>
        (text1 \<noteq> [] \<longrightarrow>
           end_interview w1 sid fb_llm2 =
             (Inr \<lparr>er_status = ''finished'', er_message = ''Feedback already generated.'',
                   er_session_id = sid, er_feedback = None\<rparr>, w1) \<and>
           get_feedback w1 sid = Inr text1)"
    unfolding text1_def[symmetric] by blast
qed

theorem end_interview_twice_witness:
  "(\<exists>s. SESSIONS demo_finished_world ''s1'' = Some s \<and> status s = finished \<and>
        feedback s = Val ''Weak.'') \<and> ''Weak.'' \<noteq> [] \<and>
   end_interview demo_finished_world ''s1'' (Inr ''Other.'') =
     (Inr \<lparr>er_status = ''finished'', er_message = ''Feedback already generated.'',
           er_session_id = ''s1'', er_feedback = None\<rparr>, demo_finished_world) \<and>
   get_feedback demo_finished_world ''s1'' = Inr ''Weak.'' \<and>
   (\<exists>s. SESSIONS (demo_world ''Quick|10'') ''s1'' = Some s \<and> status s = in_progress) \<and>
   (\<exists>w1. end_interview (demo_world ''Quick|10'') ''s1'' (Inr ''Weak.'') =
          (Inr \<lparr>er_status = ''finished'', er_message = ''Feedback generated.'',
                er_session_id = ''s1'', er_feedback = Some ''Weak.''\<rparr>, w1) \<and>
        calls w1 = calls (demo_world ''Quick|10'') @ [Completion])"
proof -
  let ?s = "\<lparr>session_id = ''s1'', role = ''Engineer'', level = ''Mid-level'', focus = ''backend'',
           mode = ''Quick|10'', jd_text = '''',
           history = [\<lparr>speaker = ''Interviewer'', turn_text = ''How do you design a cache?''\<rparr>],
           questions_asked = 1, status = finished, feedback = Val ''Weak.'',
           current_question = Val ''How do you design a cache?''\<rparr>"
  let ?b = "\<lparr>session_id = ''s1'', role = ''Engineer'', level = ''Mid-level'', focus = ''backend'',
           mode = ''Quick|10'', jd_text = '''',
           history = [\<lparr>speaker = ''Interviewer'', turn_text = ''How do you design a cache?''\<rparr>],
           questions_asked = 1, status = in_progress, feedback = PyNone,
           current_question = Val ''How do you design a cache?''\<rparr>"
  have a: "end_interview demo_finished_world ''s1'' (Inr ''Other.'') =
     (Inr \<lparr>er_status = ''finished'', er_message = ''Feedback already generated.'',
           er_session_id = ''s1'', er_feedback = None\<rparr>, demo_finished_world) \<and>
     get_feedback demo_finished_world ''s1'' = Inr ''Weak.''"
  proof -
    have h: "SESSIONS demo_finished_world ''s1'' = Some ?s \<and> status ?s = finished \<and>
             feedback ?s = Val ''Weak.'' \<and> ''Weak.'' \<noteq> []"
      by (simp add: demo_finished_world_session)
    from end_interview_twice[of demo_finished_world "''s1''" ?s "''Weak.''" "Inr ''Other.''"
      "Inr ''Other.''"] h
    show ?thesis by blast
  qed
  have b: "\<exists>w1. end_interview (demo_world ''Quick|10'') ''s1'' (Inr ''Weak.'') =
          (Inr \<lparr>er_status = ''finished'', er_message = ''Feedback generated.'',
                er_session_id = ''s1'', er_feedback = Some ''Weak.''\<rparr>, w1) \<and>
        calls w1 = calls (demo_world ''Quick|10'') @ [Completion]"
    using end_interview_twice[of "demo_world ''Quick|10''" "''s1''" ?b "''Weak.''" "Inr ''Weak.''"
      "Inr ''Other.''"]
    by (auto simp: demo_world_session generate_feedback_for_session_def)
  from a b show ?thesis
    by (simp add: demo_finished_world_session demo_world_session)
qed

theorem end_interview_twice_no_feedback:
  "map_option status (SESSIONS demo_finished_world ''s1'') = Some finished \<and>
   map_option feedback (SESSIONS demo_finished_world ''s1'') = Some (Val ''Weak.'') \<and>
   fst (end_interview demo_finished_world ''s1'' (Inr ''Other.'')) =
     Inr \<lparr>er_status = ''finished'', er_message = ''Feedback already generated.'',
          er_session_id = ''s1'', er_feedback = None\<rparr>"
  by (simp add: demo_finished_world_session end_interview_def truthy_def)

text \<open>
  Claim C10. A call of \<open>submit_response\<close> on a session whose status is finished changes
  nothing: the table of sessions and the log of calls to the transcription service, the
  retrieval index and the completion service are as before. Its response has
  \<open>feedback_ready\<close> true together with the stored feedback, or the placeholder text when
  the session has no feedback entry (a stored \<open>None\<close> is passed on as it is). In a
  reachable state a finished session always has a feedback text, and that text is what
  the response carries.
\<close>

theorem submit_response_finished:
  "(SESSIONS w sid = Some s \<and> status s = finished \<longrightarrow>
      (\<exists>fbr. submit_response w sid env =
               (Inr (Finished_Reply \<lparr>fr_feedback_ready = True, fr_feedback = fbr\<rparr>), w) \<and>
             (\<forall>fb. feedback s = Val fb \<longrightarrow> fbr = Some fb) \<and>
             (feedback s = Missing \<longrightarrow> fbr = Some ''Feedback is being generated.'') \<and>
             (feedback s = PyNone \<longrightarrow> fbr = None))) \<and>
   (reachable w \<and> SESSIONS w sid = Some s \<and> status s = finished \<longrightarrow>
      (\<exists>fb. feedback s = Val fb \<and>
            submit_response w sid env =
              (Inr (Finished_Reply \<lparr>fr_feedback_ready = True, fr_feedback = Some fb\<rparr>), w)))"
proof (intro conjI impI)
  assume "SESSIONS w sid = Some s \<and> status s = finished"
  then show "\<exists>fbr. submit_response w sid env =
               (Inr (Finished_Reply \<lparr>fr_feedback_ready = True, fr_feedback = fbr\<rparr>), w) \<and>
             (\<forall>fb. feedback s = Val fb \<longrightarrow> fbr = Some fb) \<and>
             (feedback s = Missing \<longrightarrow> fbr = Some ''Feedback is being generated.'') \<and>
             (feedback s = PyNone \<longrightarrow> fbr = None)"
    by (auto simp: submit_response_def dict_get_def)
next
  assume h: "reachable w \<and> SESSIONS w sid = Some s \<and> status s = finished"
  then have "session_ok s" using reachable_session_ok by blast
  with h obtain fb where "feedback s = Val fb"
    by (cases "feedback s") (auto simp: session_ok_def)
  with h show "\<exists>fb. feedback s = Val fb \<and>
            submit_response w sid env =
              (Inr (Finished_Reply \<lparr>fr_feedback_ready = True, fr_feedback = Some fb\<rparr>), w)"
    by (simp add: submit_response_def dict_get_def)
qed

theorem submit_response_finished_witness:
  "reachable demo_finished_world \<and>
   (\<exists>s. SESSIONS demo_finished_world ''s1'' = Some s \<and> status s = finished \<and>
        feedback s = Val ''Weak.'') \<and>
   submit_response demo_finished_world ''s1'' demo_offtopic_env =
     (Inr (Finished_Reply \<lparr>fr_feedback_ready = True, fr_feedback = Some ''Weak.''\<rparr>),
      demo_finished_world)"
proof -
  let ?s = "\<lparr>session_id = ''s1'', role = ''Engineer'', level = ''Mid-level'', focus = ''backend'',
           mode = ''Quick|10'', jd_text = '''',
           history = [\<lparr>speaker = ''Interviewer'', turn_text = ''How do you design a cache?''\<rparr>],
           questions_asked = 1, status = finished, feedback = Val ''Weak.'',
           current_question = Val ''How do you design a cache?''\<rparr>"
  from submit_response_finished[of demo_finished_world "''s1''" ?s demo_offtopic_env]
    reachable_demo_finished_world
  show ?thesis by (auto simp: demo_finished_world_session)
qed

end
